theory Spec2Isabelle
  imports Complex_Main
begin

section \<open>Data model (node.py, edge.py)\<close>

text \<open>
  The enumeration \<^verbatim>\<open>NodeType\<close> with its integer values, and the frozen dataclasses
  \<^verbatim>\<open>Node\<close> and \<^verbatim>\<open>Edge\<close>. A node is an immutable value; its optional edge holds the
  parent node (itself an immutable value with its own edge), so the parent chain is the
  nesting of the value.
\<close>

datatype NodeType = BLANK | START | END | OBSTACLE

datatype Node = Node (node_x: int) (node_y: int) (node_type: NodeType) (edge_to_parent: "Edge option")
  and Edge = Edge (target: Node) (edge_g: real) (edge_h: real) (is_diagonal: bool)

datatype error =
    InvalidLayoutInitializationException
  | PathNotFoundException
  | NoEdgeFound
  | AttributeError
  | IndexError
  | ValueError

text \<open>
  Python floats are binary64 values. Every finite float is a real number and the
  comparisons of floats are the comparisons of these reals; the two rounding operations
  the program uses (\<^verbatim>\<open>+\<close> on floats and \<^verbatim>\<open>math.sqrt\<close> of an integer) are parameters of
  the model, so that what is proved holds for the rounded operations as well as for the
  exact ones.
\<close>

record float_ops =
  fl_add :: "real \<Rightarrow> real \<Rightarrow> real"
  fl_sqrt :: "int \<Rightarrow> real"

definition exact_ops :: float_ops where
  "exact_ops = \<lparr> fl_add = (\<lambda>a b. a + b), fl_sqrt = (\<lambda>n. sqrt (real_of_int n)) \<rparr>"

definition node_type_value :: "NodeType \<Rightarrow> int" where
  "node_type_value t = (case t of BLANK \<Rightarrow> 0 | START \<Rightarrow> 1 | END \<Rightarrow> 2 | OBSTACLE \<Rightarrow> 3)"

definition all_node_types :: "NodeType list" where
  "all_node_types = [BLANK, START, END, OBSTACLE]"

text \<open>\<^verbatim>\<open>NodeType(value)\<close>: the member with that value, ValueError when there is none.\<close>

definition NodeType_of_value :: "int \<Rightarrow> error + NodeType" where
  "NodeType_of_value v =
     (case filter (\<lambda>t. node_type_value t = v) all_node_types of
        [] \<Rightarrow> Inl ValueError
      | t # _ \<Rightarrow> Inr t)"

definition from_value :: "int \<Rightarrow> error + NodeType" where
  "from_value v =
     (let maxValue = Max (set (map node_type_value all_node_types))
      in if v > maxValue then NodeType_of_value maxValue else NodeType_of_value v)"

definition empty_node :: Node where
  "empty_node = Node 0 0 BLANK None"

definition is_start :: "Node \<Rightarrow> bool" where
  "is_start n = (if node_type n = START then True else False)"

definition is_end :: "Node \<Rightarrow> bool" where
  "is_end n = (if node_type n = END then True else False)"

definition is_obstacle :: "Node \<Rightarrow> bool" where
  "is_obstacle n = (if node_type n = OBSTACLE then True else False)"

definition has_edge_to_parent :: "Node \<Rightarrow> bool" where
  "has_edge_to_parent n = (if edge_to_parent n = None then False else True)"

text \<open>\<^verbatim>\<open>replace(self, edge_to_parent=edge)\<close>: a new node; the receiver is unchanged.\<close>

definition set_edge_to_parent :: "Node \<Rightarrow> Edge option \<Rightarrow> Node" where
  "set_edge_to_parent n e = Node (node_x n) (node_y n) (node_type n) e"

text \<open>\<^verbatim>\<open>Node.__eq__\<close>: coordinates only.\<close>

definition node_eq :: "Node \<Rightarrow> Node \<Rightarrow> bool" where
  "node_eq a b = (node_x a = node_x b \<and> node_y a = node_y b)"

definition get_f :: "float_ops \<Rightarrow> Edge \<Rightarrow> real" where
  "get_f ops e = fl_add ops (edge_g e) (edge_h e)"

section \<open>Python list operations on nodes\<close>

text \<open>
  \<^verbatim>\<open>in\<close>, \<^verbatim>\<open>list.remove\<close> and \<^verbatim>\<open>list.index\<close> compare with \<^verbatim>\<open>__eq__\<close>, take the first
  match, and the last two raise ValueError when nothing matches.
\<close>

fun contains :: "Node list \<Rightarrow> Node \<Rightarrow> bool" where
  "contains [] n = False"
| "contains (m # ms) n = (if node_eq m n then True else contains ms n)"

fun list_remove :: "Node list \<Rightarrow> Node \<Rightarrow> error + Node list" where
  "list_remove [] n = Inl ValueError"
| "list_remove (m # ms) n =
     (if node_eq m n then Inr ms
      else (case list_remove ms n of Inl e \<Rightarrow> Inl e | Inr r \<Rightarrow> Inr (m # r)))"

fun list_index :: "Node list \<Rightarrow> Node \<Rightarrow> error + nat" where
  "list_index [] n = Inl ValueError"
| "list_index (m # ms) n =
     (if node_eq m n then Inr 0
      else (case list_index ms n of Inl e \<Rightarrow> Inl e | Inr i \<Rightarrow> Inr (Suc i)))"

text \<open>A loop body that may raise, run over a list: the first error ends it.\<close>

fun emap :: "('a \<Rightarrow> error + 'b) \<Rightarrow> 'a list \<Rightarrow> error + 'b list" where
  "emap f [] = Inr []"
| "emap f (v # vs) =
     (case f v of Inl e \<Rightarrow> Inl e
      | Inr w \<Rightarrow> (case emap f vs of Inl e \<Rightarrow> Inl e | Inr ws \<Rightarrow> Inr (w # ws)))"

text \<open>
  \<^verbatim>\<open>min(xs, key=...)\<close> on a non-empty list whose keys are already computed: the first
  element with the least key (a later element replaces the best one only when its key is
  strictly smaller).
\<close>

fun min_loop :: "Node \<times> real \<Rightarrow> (Node \<times> real) list \<Rightarrow> Node \<times> real" where
  "min_loop best [] = best"
| "min_loop best (c # cs) = min_loop (if snd c < snd best then c else best) cs"

fun min_by_key :: "(Node \<times> real) list \<Rightarrow> error + Node" where
  "min_by_key [] = Inl ValueError"
| "min_by_key (c # cs) = Inr (fst (min_loop c cs))"

section \<open>The search engine (a_star.py)\<close>

record AStar =
  layout :: "Node list list"
  node_start :: Node
  node_end :: Node
  open_list :: "Node list"
  closed_list :: "Node list"

subsection \<open>Construction\<close>

definition init_node :: "int list list \<Rightarrow> nat \<Rightarrow> nat \<Rightarrow> error + Node" where
  "init_node arr2d i j =
     (if j < length (arr2d ! i)
      then (case from_value (arr2d ! i ! j) of
              Inl e \<Rightarrow> Inl e
            | Inr t \<Rightarrow> Inr (Node (int i) (int j) t None))
      else Inl IndexError)"

text \<open>
  The scan of \<^verbatim>\<open>__init__\<close> keeps, for the start and for the end, the last node of
  that kind in row-major order.
\<close>

definition scan_node :: "Node option \<times> Node option \<Rightarrow> Node \<Rightarrow> Node option \<times> Node option" where
  "scan_node se n =
     (if is_start n then Some n else fst se, if is_end n then Some n else snd se)"

text \<open>
  \<^verbatim>\<open>__open_list\<close> and \<^verbatim>\<open>__closed_list\<close> are attributes of the class: one pair of
  lists that all instances share, and that \<^verbatim>\<open>__init__\<close> leaves as they are. What
  they hold when the constructor is called is given by its first two arguments.
\<close>

definition AStar_init :: "Node list \<Rightarrow> Node list \<Rightarrow> int list list \<Rightarrow> error + AStar" where
  "AStar_init class_open class_closed arr2d =
     (case arr2d of
        [] \<Rightarrow> Inl IndexError
      | row0 # _ \<Rightarrow>
          (let xLen = length arr2d; yLen = length row0
           in case emap (\<lambda>i. emap (\<lambda>j. init_node arr2d i j) [0..<yLen]) [0..<xLen] of
                Inl e \<Rightarrow> Inl e
              | Inr lay \<Rightarrow>
                  (case foldl scan_node (None, None) (concat lay) of
                     (None, _) \<Rightarrow> Inl InvalidLayoutInitializationException
                   | (Some s, None) \<Rightarrow> Inl InvalidLayoutInitializationException
                   | (Some s, Some e) \<Rightarrow>
                       Inr \<lparr> layout = lay, node_start = s, node_end = e,
                             open_list = class_open, closed_list = class_closed \<rparr>)))"

subsection \<open>Grid access\<close>

definition get_len_x :: "AStar \<Rightarrow> int" where
  "get_len_x a = int (length (layout a))"

definition get_len_y :: "AStar \<Rightarrow> int" where
  "get_len_y a = int (length (layout a ! 0))"

definition is_in_bounds :: "AStar \<Rightarrow> int \<Rightarrow> int \<Rightarrow> bool" where
  "is_in_bounds a i j =
     (if i < 0 \<or> i > get_len_x a - 1 \<or> j < 0 \<or> j > get_len_y a - 1 then False else True)"

definition get_node_or_none :: "AStar \<Rightarrow> int \<Rightarrow> int \<Rightarrow> Node option" where
  "get_node_or_none a i j =
     (if is_in_bounds a i j then Some (layout a ! nat i ! nat j) else None)"

definition aligned_coordinates :: "Node \<Rightarrow> (int \<times> int \<times> bool) list" where
  "aligned_coordinates n =
     [(node_x n - 1, node_y n + 1, True),
      (node_x n, node_y n + 1, False),
      (node_x n + 1, node_y n + 1, True),
      (node_x n + 1, node_y n, False),
      (node_x n + 1, node_y n - 1, True),
      (node_x n, node_y n - 1, False),
      (node_x n - 1, node_y n - 1, True),
      (node_x n - 1, node_y n, False)]"

fun get_neighbours_loop :: "AStar \<Rightarrow> (int \<times> int \<times> bool) list \<Rightarrow> (Node \<times> bool) list" where
  "get_neighbours_loop a [] = []"
| "get_neighbours_loop a ((i, j, d) # elements) =
     (case get_node_or_none a i j of
        None \<Rightarrow> get_neighbours_loop a elements
      | Some neighbour \<Rightarrow> (neighbour, d) # get_neighbours_loop a elements)"

definition get_neighbours :: "AStar \<Rightarrow> Node \<Rightarrow> (Node \<times> bool) list" where
  "get_neighbours a n = get_neighbours_loop a (aligned_coordinates n)"

subsection \<open>Scores\<close>

definition get_f_or_zero_if_start :: "float_ops \<Rightarrow> Node \<Rightarrow> error + real" where
  "get_f_or_zero_if_start ops n =
     (if node_type n = START then Inr 0
      else (case edge_to_parent n of
              None \<Rightarrow> Inl AttributeError
            | Some e \<Rightarrow> Inr (get_f ops e)))"

definition calc_g :: "float_ops \<Rightarrow> Node \<Rightarrow> bool \<Rightarrow> error + real" where
  "calc_g ops parent is_diag =
     (if \<not> has_edge_to_parent parent \<and> node_type parent = START then Inr 0
      else (case edge_to_parent parent of
              None \<Rightarrow> Inl NoEdgeFound
            | Some e \<Rightarrow> Inr (fl_add ops (edge_g e) (if is_diag then 14 else 10))))"

definition calc_h :: "float_ops \<Rightarrow> AStar \<Rightarrow> Node \<Rightarrow> real" where
  "calc_h ops a n =
     (let dx = node_x (node_end a) - node_x n;
          dy = node_y (node_end a) - node_y n
      in fl_sqrt ops ((dx * dx) + (dy * dy)))"

subsection \<open>Result\<close>

text \<open>The \<^verbatim>\<open>while\<close> loop of \<^verbatim>\<open>get_result\<close>, before the reversal.\<close>

fun get_result_loop :: "Node \<Rightarrow> (int \<times> int) list \<Rightarrow> (int \<times> int) list" where
  "get_result_loop (Node px py t None) result = result"
| "get_result_loop (Node px py t (Some (Edge p gv hv d))) result =
     (if \<not> is_start (Node px py t (Some (Edge p gv hv d)))
      then get_result_loop p (result @ [(px, py)])
      else result)"

definition get_result :: "AStar \<Rightarrow> error + (int \<times> int) list" where
  "get_result a =
     (case edge_to_parent (node_end a) of
        None \<Rightarrow> Inl PathNotFoundException
      | Some e \<Rightarrow> Inr (rev (get_result_loop (target e) [])))"

subsection \<open>Search\<close>

text \<open>One iteration of the \<^verbatim>\<open>for\<close> loop of \<^verbatim>\<open>__do_search\<close>.\<close>

definition visit_neighbour :: "float_ops \<Rightarrow> Node \<Rightarrow> AStar \<Rightarrow> Node \<times> bool \<Rightarrow> error + AStar" where
  "visit_neighbour ops current a nd =
     (let neighbour = fst nd; is_diag = snd nd
      in if is_obstacle neighbour \<or> contains (closed_list a) neighbour then Inr a
         else (case calc_g ops current is_diag of
                 Inl e \<Rightarrow> Inl e
               | Inr gv \<Rightarrow>
                   (let neighbour_with_edge = set_edge_to_parent neighbour
                          (Some (Edge current gv (calc_h ops a neighbour) is_diag))
                    in if \<not> contains (open_list a) neighbour_with_edge
                       then Inr (a\<lparr>open_list := open_list a @ [neighbour_with_edge]\<rparr>)
                       else (case list_index (open_list a) neighbour_with_edge of
                               Inl e \<Rightarrow> Inl e
                             | Inr index_of_other \<Rightarrow>
                                 (case edge_to_parent (open_list a ! index_of_other) of
                                    None \<Rightarrow> Inl AttributeError
                                  | Some other \<Rightarrow>
                                      if gv < edge_g other
                                      then Inr (a\<lparr>open_list :=
                                             (open_list a)[index_of_other := neighbour_with_edge]\<rparr>)
                                      else Inr a)))))"

fun visit_neighbours :: "float_ops \<Rightarrow> Node \<Rightarrow> AStar \<Rightarrow> (Node \<times> bool) list \<Rightarrow> error + AStar" where
  "visit_neighbours ops current a [] = Inr a"
| "visit_neighbours ops current a (nd # nds) =
     (case visit_neighbour ops current a nd of
        Inl e \<Rightarrow> Inl e
      | Inr a' \<Rightarrow> visit_neighbours ops current a' nds)"

text \<open>
  \<^verbatim>\<open>__do_search\<close> calls itself once per visited cell. The first argument bounds the
  number of nested calls: with none left the result is \<open>None\<close>.
\<close>

fun do_search :: "float_ops \<Rightarrow> nat \<Rightarrow> AStar \<Rightarrow> (error + bool \<times> AStar) option" where
  "do_search ops 0 a = None"
| "do_search ops (Suc depth) a =
     (if length (open_list a) \<le> 0 then Some (Inr (False, a))
      else (case emap (get_f_or_zero_if_start ops) (open_list a) of
              Inl e \<Rightarrow> Some (Inl e)
            | Inr keys \<Rightarrow>
                (case min_by_key (zip (open_list a) keys) of
                   Inl e \<Rightarrow> Some (Inl e)
                 | Inr current \<Rightarrow>
                     (case list_remove (open_list a) current of
                        Inl e \<Rightarrow> Some (Inl e)
                      | Inr rest \<Rightarrow>
                          (let a1 = a\<lparr>open_list := rest, closed_list := closed_list a @ [current]\<rparr>
                           in if is_end current then Some (Inr (True, a1\<lparr>node_end := current\<rparr>))
                              else (case visit_neighbours ops current a1 (get_neighbours a1 current) of
                                      Inl e \<Rightarrow> Some (Inl e)
                                    | Inr a2 \<Rightarrow> do_search ops depth a2))))))"

text \<open>
  The first four statements of \<^verbatim>\<open>search\<close>. The value of
  \<^verbatim>\<open>self.__node_end.set_edge_to_parent(None)\<close> is a new node that the statement drops.
\<close>

definition search_reset :: "AStar \<Rightarrow> AStar" where
  "search_reset a =
     (let dropped = set_edge_to_parent (node_end a) None
      in a\<lparr>open_list := [node_start a], closed_list := []\<rparr>)"

definition search :: "float_ops \<Rightarrow> nat \<Rightarrow> AStar \<Rightarrow> (error + bool \<times> AStar) option" where
  "search ops depth a = do_search ops depth (search_reset a)"

section \<open>Specification vocabulary and invariants\<close>

definition coord :: "Node \<Rightarrow> int \<times> int" where
  "coord n = (node_x n, node_y n)"

definition chebyshev :: "int \<times> int \<Rightarrow> int \<times> int \<Rightarrow> int" where
  "chebyshev c d = max \<bar>fst c - fst d\<bar> \<bar>snd c - snd d\<bar>"

definition in_grid :: "AStar \<Rightarrow> int \<times> int \<Rightarrow> bool" where
  "in_grid a c = is_in_bounds a (fst c) (snd c)"

definition grid_node :: "AStar \<Rightarrow> int \<times> int \<Rightarrow> Node" where
  "grid_node a c = layout a ! nat (fst c) ! nat (snd c)"

definition cell_kind :: "AStar \<Rightarrow> int \<times> int \<Rightarrow> NodeType" where
  "cell_kind a c = node_type (grid_node a c)"

definition layout_ok :: "AStar \<Rightarrow> bool" where
  "layout_ok a \<longleftrightarrow>
     layout a \<noteq> [] \<and>
     (\<forall>i<length (layout a). length (layout a ! i) = length (layout a ! 0)) \<and>
     (\<forall>i<length (layout a). \<forall>j<length (layout a ! 0).
        node_x (layout a ! i ! j) = int i \<and> node_y (layout a ! i ! j) = int j \<and>
        edge_to_parent (layout a ! i ! j) = None)"

definition grid_ok :: "AStar \<Rightarrow> bool" where
  "grid_ok a \<longleftrightarrow>
     layout_ok a \<and>
     in_grid a (coord (node_start a)) \<and> grid_node a (coord (node_start a)) = node_start a \<and>
     node_type (node_start a) = START \<and>
     in_grid a (coord (node_end a)) \<and> node_type (node_end a) = END \<and>
     cell_kind a (coord (node_end a)) = END"

text \<open>Nodes of the frontier: the start node, or a cell with an edge to a linked parent.\<close>

inductive linked :: "AStar \<Rightarrow> Node \<Rightarrow> bool" for a :: AStar where
  linked_start: "linked a (node_start a)"
| linked_step:
    "linked a p \<Longrightarrow> \<not> is_end p \<Longrightarrow> in_grid a c \<Longrightarrow> chebyshev (coord p) c = 1 \<Longrightarrow>
     cell_kind a c \<noteq> OBSTACLE \<Longrightarrow>
     linked a (Node (fst c) (snd c) (cell_kind a c) (Some (Edge p gv hv d)))"

text \<open>The frontier while the neighbours of a cell are visited.\<close>

definition frontier_ok :: "AStar \<Rightarrow> Node list \<Rightarrow> bool" where
  "frontier_ok a ol \<longleftrightarrow>
     (\<forall>n\<in>set ol. linked a n \<and> edge_to_parent n \<noteq> None) \<and> distinct (map coord ol)"

definition passable :: "AStar \<Rightarrow> (Node \<times> bool) list \<Rightarrow> (int \<times> int) set" where
  "passable a nds =
     (\<lambda>nd. coord (fst nd)) ` {nd \<in> set nds. \<not> is_obstacle (fst nd) \<and>
        coord (fst nd) \<notin> coord ` set (closed_list a)}"

text \<open>The state of the search at each call of \<^verbatim>\<open>__do_search\<close>.\<close>

definition search_inv :: "AStar \<Rightarrow> bool" where
  "search_inv a \<longleftrightarrow>
     grid_ok a \<and>
     (\<forall>n\<in>set (open_list a). linked a n) \<and> distinct (map coord (open_list a)) \<and>
     (\<forall>n\<in>set (closed_list a). linked a n \<and> \<not> is_end n) \<and>
     distinct (map coord (closed_list a)) \<and>
     coord ` set (open_list a) \<inter> coord ` set (closed_list a) = {} \<and>
     (if closed_list a = [] then open_list a = [node_start a]
      else (\<forall>n\<in>set (open_list a). edge_to_parent n \<noteq> None) \<and>
           coord (node_start a) \<in> coord ` set (closed_list a)) \<and>
     (\<forall>n\<in>set (closed_list a). \<forall>c. in_grid a c \<longrightarrow> chebyshev (coord n) c = 1 \<longrightarrow>
        cell_kind a c \<noteq> OBSTACLE \<longrightarrow>
        c \<in> coord ` set (open_list a) \<union> coord ` set (closed_list a))"

definition search_post :: "AStar \<Rightarrow> bool \<Rightarrow> AStar \<Rightarrow> bool" where
  "search_post a b a' \<longleftrightarrow>
     layout a' = layout a \<and> node_start a' = node_start a \<and>
     (\<forall>n\<in>set (closed_list a'). linked a n) \<and> distinct (map coord (closed_list a')) \<and>
     (if b then is_end (node_end a') \<and> linked a (node_end a')
      else node_end a' = node_end a \<and> open_list a' = [] \<and> search_inv a')"

text \<open>The cells that a search may still visit before it ends.\<close>

definition remaining :: "AStar \<Rightarrow> (int \<times> int) set" where
  "remaining a = {c. in_grid a c \<and> cell_kind a c \<noteq> END \<and> c \<notin> coord ` set (closed_list a)}"

fun adjacent_steps :: "(int \<times> int) list \<Rightarrow> bool" where
  "adjacent_steps [] = True"
| "adjacent_steps [c] = True"
| "adjacent_steps (c # d # cs) = (chebyshev c d = 1 \<and> adjacent_steps (d # cs))"

definition free_path :: "AStar \<Rightarrow> (int \<times> int) list \<Rightarrow> bool" where
  "free_path a p \<longleftrightarrow>
     p \<noteq> [] \<and> (\<forall>c\<in>set p. in_grid a c \<and> cell_kind a c \<noteq> OBSTACLE) \<and> adjacent_steps p"

definition end_reachable :: "AStar \<Rightarrow> bool" where
  "end_reachable a \<longleftrightarrow>
     (\<exists>p. free_path a p \<and> hd p = coord (node_start a) \<and> cell_kind a (last p) = END)"

text \<open>
  The states of one instance: built by the constructor from \<open>arr2d\<close>, then after calls of
  search that returned (\<open>hist\<close> lists what they returned, oldest first). Between two
  calls the lists of the class may have been left with other contents by another
  instance.
\<close>

inductive instance_after :: "float_ops \<Rightarrow> int list list \<Rightarrow> bool list \<Rightarrow> AStar \<Rightarrow> bool"
  for ops :: float_ops and arr2d :: "int list list" where
  constructed: "AStar_init co cc arr2d = Inr a \<Longrightarrow> instance_after ops arr2d [] a"
| searched: "instance_after ops arr2d hist a \<Longrightarrow> search ops depth a = Some (Inr (b, a')) \<Longrightarrow>
     instance_after ops arr2d (hist @ [b]) a'"
| shared: "instance_after ops arr2d hist a \<Longrightarrow>
     instance_after ops arr2d hist (a\<lparr>open_list := ol, closed_list := cl\<rparr>)"

text \<open>The coordinates that the loop of \<^verbatim>\<open>get_result\<close> collects from a node on.\<close>

fun parent_chain :: "Node \<Rightarrow> (int \<times> int) list" where
  "parent_chain (Node px py t None) = []"
| "parent_chain (Node px py t (Some (Edge p gv hv d))) =
     (if t \<noteq> START then (px, py) # parent_chain p else [])"

text \<open>Small grids, with the instances that the constructor and a search produce on them.\<close>

definition line3_instance :: AStar where
  "line3_instance =
     \<lparr> layout = [[Node 0 0 START None, Node 0 1 BLANK None, Node 0 2 END None]],
       node_start = Node 0 0 START None, node_end = Node 0 2 END None,
       open_list = [], closed_list = [] \<rparr>"

definition line3_found :: AStar where
  "line3_found =
     \<lparr> layout = [[Node 0 0 START None, Node 0 1 BLANK None, Node 0 2 END None]],
       node_start = Node 0 0 START None,
       node_end = Node 0 2 END (Some (Edge
         (Node 0 1 BLANK (Some (Edge (Node 0 0 START None) 0 1 False))) 10 0 False)),
       open_list = [],
       closed_list =
         [Node 0 0 START None,
          Node 0 1 BLANK (Some (Edge (Node 0 0 START None) 0 1 False)),
          Node 0 2 END (Some (Edge
            (Node 0 1 BLANK (Some (Edge (Node 0 0 START None) 0 1 False))) 10 0 False))] \<rparr>"

definition line4_instance :: AStar where
  "line4_instance =
     \<lparr> layout = [[Node 0 0 START None, Node 0 1 BLANK None, Node 0 2 BLANK None,
                   Node 0 3 END None]],
       node_start = Node 0 0 START None, node_end = Node 0 3 END None,
       open_list = [], closed_list = [] \<rparr>"

definition line4_found :: AStar where
  "line4_found =
     \<lparr> layout = [[Node 0 0 START None, Node 0 1 BLANK None, Node 0 2 BLANK None,
                   Node 0 3 END None]],
       node_start = Node 0 0 START None,
       node_end = Node 0 3 END (Some (Edge
         (Node 0 2 BLANK (Some (Edge
           (Node 0 1 BLANK (Some (Edge (Node 0 0 START None) 0 2 False))) 10 1 False)))
         20 0 False)),
       open_list = [],
       closed_list =
         [Node 0 0 START None,
          Node 0 1 BLANK (Some (Edge (Node 0 0 START None) 0 2 False)),
          Node 0 2 BLANK (Some (Edge
            (Node 0 1 BLANK (Some (Edge (Node 0 0 START None) 0 2 False))) 10 1 False)),
          Node 0 3 END (Some (Edge
            (Node 0 2 BLANK (Some (Edge
              (Node 0 1 BLANK (Some (Edge (Node 0 0 START None) 0 2 False))) 10 1 False)))
            20 0 False))] \<rparr>"

definition pair_instance :: AStar where
  "pair_instance =
     \<lparr> layout = [[Node 0 0 START None, Node 0 1 END None]],
       node_start = Node 0 0 START None, node_end = Node 0 1 END None,
       open_list = [], closed_list = [] \<rparr>"

definition pair_found :: AStar where
  "pair_found =
     \<lparr> layout = [[Node 0 0 START None, Node 0 1 END None]],
       node_start = Node 0 0 START None,
       node_end = Node 0 1 END (Some (Edge (Node 0 0 START None) 0 0 False)),
       open_list = [],
       closed_list =
         [Node 0 0 START None,
          Node 0 1 END (Some (Edge (Node 0 0 START None) 0 0 False))] \<rparr>"

definition walled_instance :: AStar where
  "walled_instance =
     \<lparr> layout = [[Node 0 0 START None, Node 0 1 OBSTACLE None, Node 0 2 END None]],
       node_start = Node 0 0 START None, node_end = Node 0 2 END None,
       open_list = [], closed_list = [] \<rparr>"

definition walled_exhausted :: AStar where
  "walled_exhausted =
     \<lparr> layout = [[Node 0 0 START None, Node 0 1 OBSTACLE None, Node 0 2 END None]],
       node_start = Node 0 0 START None, node_end = Node 0 2 END None,
       open_list = [], closed_list = [Node 0 0 START None] \<rparr>"

definition two_ends_instance :: AStar where
  "two_ends_instance =
     \<lparr> layout = [[Node 0 0 END None, Node 0 1 START None, Node 0 2 OBSTACLE None,
                   Node 0 3 END None]],
       node_start = Node 0 1 START None, node_end = Node 0 3 END None,
       open_list = [], closed_list = [] \<rparr>"

definition two_ends_found :: AStar where
  "two_ends_found =
     \<lparr> layout = [[Node 0 0 END None, Node 0 1 START None, Node 0 2 OBSTACLE None,
                   Node 0 3 END None]],
       node_start = Node 0 1 START None,
       node_end = Node 0 0 END (Some (Edge (Node 0 1 START None) 0 (sqrt 9) False)),
       open_list = [],
       closed_list =
         [Node 0 1 START None,
          Node 0 0 END (Some (Edge (Node 0 1 START None) 0 (sqrt 9) False))] \<rparr>"

text \<open>The end cell of the instance can be reached from its start cell.\<close>

definition end_cell_reachable :: "AStar \<Rightarrow> bool" where
  "end_cell_reachable a \<longleftrightarrow>
     (\<exists>p. free_path a p \<and> hd p = coord (node_start a) \<and> last p = coord (node_end a))"

text \<open>A rectangular array: every row is as long as the first.\<close>

definition rectangular :: "int list list \<Rightarrow> bool" where
  "rectangular arr2d \<longleftrightarrow> (\<forall>row\<in>set arr2d. length row = length (arr2d ! 0))"

definition non_negative :: "int list list \<Rightarrow> bool" where
  "non_negative arr2d \<longleftrightarrow> (\<forall>row\<in>set arr2d. \<forall>v\<in>set row. 0 \<le> v)"

text \<open>Some cell of the array decodes to the kind.\<close>

definition decodes_to :: "int list list \<Rightarrow> NodeType \<Rightarrow> bool" where
  "decodes_to arr2d t \<longleftrightarrow> (\<exists>row\<in>set arr2d. \<exists>v\<in>set row. from_value v = Inr t)"

section \<open>Properties of the model\<close>

lemma contains_iff: "contains xs n \<longleftrightarrow> coord n \<in> coord ` set xs"
  by (induction xs) (auto simp: node_eq_def coord_def)

lemma list_remove_coords:
  "list_remove xs n = Inr r \<Longrightarrow> map coord r = remove1 (coord n) (map coord xs)"
  by (induction xs arbitrary: r) (auto simp: node_eq_def coord_def split: if_splits sum.splits)

lemma list_remove_subset: "list_remove xs n = Inr r \<Longrightarrow> set r \<subseteq> set xs"
  by (induction xs arbitrary: r) (auto split: if_splits sum.splits)

lemma list_remove_length: "list_remove xs n = Inr r \<Longrightarrow> Suc (length r) = length xs"
  by (induction xs arbitrary: r) (auto split: if_splits sum.splits)

lemma list_remove_ok: "coord n \<in> coord ` set xs \<Longrightarrow> \<exists>r. list_remove xs n = Inr r"
  by (induction xs) (auto simp: node_eq_def coord_def split: sum.splits)

lemma list_index_bound:
  "list_index xs n = Inr i \<Longrightarrow> i < length xs \<and> coord (xs ! i) = coord n"
  by (induction xs arbitrary: i) (auto simp: node_eq_def coord_def split: if_splits sum.splits)

lemma list_index_ok: "contains xs n \<Longrightarrow> \<exists>i. list_index xs n = Inr i"
  by (induction xs) (auto split: if_splits sum.splits)

lemma emap_length: "emap f xs = Inr ys \<Longrightarrow> length ys = length xs"
  by (induction xs arbitrary: ys) (auto split: sum.splits)

lemma emap_nth: "emap f xs = Inr ys \<Longrightarrow> i < length xs \<Longrightarrow> f (xs ! i) = Inr (ys ! i)"
  by (induction xs arbitrary: ys i) (auto split: sum.splits simp: nth_Cons')

lemma emap_ok: "(\<And>v. v \<in> set xs \<Longrightarrow> \<exists>w. f v = Inr w) \<Longrightarrow> \<exists>ys. emap f xs = Inr ys"
  by (induction xs) (fastforce split: sum.splits)+

lemma emap_err: "emap f xs = Inl e \<Longrightarrow> \<exists>v\<in>set xs. f v = Inl e"
  by (induction xs) (auto split: sum.splits)

lemma min_loop_mem: "min_loop best cs \<in> set (best # cs)"
  by (induction cs arbitrary: best) auto

lemma min_by_key_mem: "min_by_key (zip xs ks) = Inr n \<Longrightarrow> n \<in> set xs"
proof (cases "zip xs ks")
  case Nil
  assume "min_by_key (zip xs ks) = Inr n"
  then have "min_by_key [] = Inr n" unfolding Nil .
  then show ?thesis by simp
next
  case (Cons c cs)
  assume "min_by_key (zip xs ks) = Inr n"
  with Cons have "n = fst (min_loop c cs)" by simp
  moreover have "min_loop c cs \<in> set (zip xs ks)" using min_loop_mem[of c cs] Cons by simp
  ultimately show ?thesis by (metis in_set_zipE prod.collapse)
qed

lemma min_by_key_ok: "xs \<noteq> [] \<Longrightarrow> length ks = length xs \<Longrightarrow> \<exists>n. min_by_key (zip xs ks) = Inr n"
  by (cases xs; cases ks) auto

lemma in_grid_iff:
  "in_grid a c \<longleftrightarrow> 0 \<le> fst c \<and> nat (fst c) < length (layout a) \<and> 0 \<le> snd c \<and> nat (snd c) < length (layout a ! 0)"
  unfolding in_grid_def is_in_bounds_def get_len_x_def get_len_y_def by (simp add: nat_less_iff)

lemma layout_ok_node:
  "layout_ok a \<Longrightarrow> i < length (layout a) \<Longrightarrow> j < length (layout a ! 0) \<Longrightarrow>
     node_x (layout a ! i ! j) = int i \<and> node_y (layout a ! i ! j) = int j \<and>
     edge_to_parent (layout a ! i ! j) = None"
  unfolding layout_ok_def by blast

lemma layout_ok_row:
  "layout_ok a \<Longrightarrow> i < length (layout a) \<Longrightarrow> length (layout a ! i) = length (layout a ! 0)"
  unfolding layout_ok_def by blast

lemma grid_node_coord:
  assumes "layout_ok a" "in_grid a c"
  shows "coord (grid_node a c) = c"
proof -
  from assms(2) have "nat (fst c) < length (layout a)" "nat (snd c) < length (layout a ! 0)"
    "0 \<le> fst c" "0 \<le> snd c"
    by (simp_all add: in_grid_iff)
  with layout_ok_node[OF assms(1), of "nat (fst c)" "nat (snd c)"]
  show ?thesis by (simp add: grid_node_def coord_def prod_eq_iff)
qed

lemma grid_node_no_edge:
  assumes "layout_ok a" "in_grid a c"
  shows "edge_to_parent (grid_node a c) = None"
proof -
  from assms(2) have "nat (fst c) < length (layout a)" "nat (snd c) < length (layout a ! 0)"
    by (simp_all add: in_grid_iff)
  with layout_ok_node[OF assms(1), of "nat (fst c)" "nat (snd c)"]
  show ?thesis by (simp add: grid_node_def)
qed

lemma chebyshev_sym: "chebyshev c d = chebyshev d c"
  by (simp add: chebyshev_def abs_minus_commute)

lemma chebyshev_one_arith:
  "(max \<bar>i - k\<bar> \<bar>j - l\<bar> = (1::int)) \<longleftrightarrow>
   (k = i - 1 \<and> l = j + 1 \<or> k = i \<and> l = j + 1 \<or> k = i + 1 \<and> l = j + 1 \<or> k = i + 1 \<and> l = j \<or>
    k = i + 1 \<and> l = j - 1 \<or> k = i \<and> l = j - 1 \<or> k = i - 1 \<and> l = j - 1 \<or> k = i - 1 \<and> l = j)"
  by (simp add: max_def abs_if) presburger

lemma get_neighbours_loop_set:
  "set (get_neighbours_loop a cs) =
     {(grid_node a (i, j), d) | i j d. in_grid a (i, j) \<and> (i, j, d) \<in> set cs}"
proof (induction cs)
  case Nil
  show ?case by simp
next
  case (Cons e cs)
  obtain i j d where e: "e = (i, j, d)" by (cases e)
  show ?case
  proof (cases "in_grid a (i, j)")
    case True
    then have "get_neighbours_loop a (e # cs) = (grid_node a (i, j), d) # get_neighbours_loop a cs"
      by (simp add: e get_node_or_none_def in_grid_def grid_node_def)
    then show ?thesis using Cons.IH True unfolding e by auto
  next
    case False
    then have "get_neighbours_loop a (e # cs) = get_neighbours_loop a cs"
      by (simp add: e get_node_or_none_def in_grid_def)
    then show ?thesis using Cons.IH False unfolding e by auto
  qed
qed

lemma aligned_chebyshev:
  "(\<exists>d. (i, j, d) \<in> set (aligned_coordinates n)) \<longleftrightarrow> chebyshev (coord n) (i, j) = 1"
proof -
  have "(\<exists>d. (i, j, d) \<in> set (aligned_coordinates n)) \<longleftrightarrow>
        (i = node_x n - 1 \<and> j = node_y n + 1 \<or> i = node_x n \<and> j = node_y n + 1 \<or>
         i = node_x n + 1 \<and> j = node_y n + 1 \<or> i = node_x n + 1 \<and> j = node_y n \<or>
         i = node_x n + 1 \<and> j = node_y n - 1 \<or> i = node_x n \<and> j = node_y n - 1 \<or>
         i = node_x n - 1 \<and> j = node_y n - 1 \<or> i = node_x n - 1 \<and> j = node_y n)"
    unfolding aligned_coordinates_def by simp blast
  also have "\<dots> \<longleftrightarrow> chebyshev (coord n) (i, j) = 1"
    unfolding coord_def chebyshev_def fst_conv snd_conv chebyshev_one_arith ..
  finally show ?thesis .
qed

lemma get_neighbours_sound:
  assumes "nd \<in> set (get_neighbours a n)"
  shows "\<exists>c. in_grid a c \<and> fst nd = grid_node a c \<and> chebyshev (coord n) c = 1"
proof -
  from assms obtain i j d where *: "nd = (grid_node a (i, j), d)" "in_grid a (i, j)"
      "(i, j, d) \<in> set (aligned_coordinates n)"
    unfolding get_neighbours_def get_neighbours_loop_set by blast
  from *(3) have "chebyshev (coord n) (i, j) = 1" using aligned_chebyshev[of i j n] by blast
  with * show ?thesis by (intro exI[of _ "(i, j)"]) simp
qed

lemma get_neighbours_complete:
  assumes "in_grid a c" "chebyshev (coord n) c = 1"
  shows "\<exists>d. (grid_node a c, d) \<in> set (get_neighbours a n)"
proof -
  obtain i j where c: "c = (i, j)" by (cases c)
  from assms(2) obtain d where "(i, j, d) \<in> set (aligned_coordinates n)"
    using aligned_chebyshev[of i j n] unfolding c by blast
  with assms(1) have "(grid_node a c, d) \<in> set (get_neighbours a n)"
    unfolding get_neighbours_def get_neighbours_loop_set c by blast
  then show ?thesis ..
qed

lemma linked_cong:
  assumes "linked a n" "layout b = layout a" "node_start b = node_start a"
  shows "linked b n"
  using assms(1)
proof (induction rule: linked.induct)
  case linked_start
  show ?case using linked.linked_start[of b] assms(3) by simp
next
  case (linked_step p c gv hv d)
  have "in_grid b c" using linked_step.hyps(3) assms(2) by (simp add: in_grid_iff)
  moreover have "cell_kind b c = cell_kind a c" using assms(2) by (simp add: cell_kind_def grid_node_def)
  ultimately show ?case
    using linked.linked_step[of b p c gv hv d] linked_step by simp
qed

lemma linked_in_grid: "linked a n \<Longrightarrow> grid_ok a \<Longrightarrow> in_grid a (coord n)"
  by (induction rule: linked.induct) (simp_all add: grid_ok_def coord_def)

lemma linked_kind: "linked a n \<Longrightarrow> grid_ok a \<Longrightarrow> node_type n = cell_kind a (coord n)"
proof (induction rule: linked.induct)
  case linked_start
  then show ?case unfolding grid_ok_def cell_kind_def by metis
next
  case (linked_step p c gv hv d)
  then show ?case by (simp add: coord_def)
qed

lemma linked_not_obstacle: "linked a n \<Longrightarrow> grid_ok a \<Longrightarrow> node_type n \<noteq> OBSTACLE"
  by (induction rule: linked.induct) (simp_all add: grid_ok_def)

lemma linked_no_edge: "linked a n \<Longrightarrow> grid_ok a \<Longrightarrow> edge_to_parent n = None \<Longrightarrow> n = node_start a"
  by (induction rule: linked.induct) simp_all

lemma linked_edge_or_start:
  "linked a n \<Longrightarrow> grid_ok a \<Longrightarrow> edge_to_parent n \<noteq> None \<or> node_type n = START"
  by (induction rule: linked.induct) (simp_all add: grid_ok_def)

lemma linked_target:
  "linked a n \<Longrightarrow> edge_to_parent n = Some e \<Longrightarrow> edge_to_parent (node_start a) = None \<Longrightarrow>
     linked a (target e) \<and> \<not> is_end (target e) \<and> chebyshev (coord (target e)) (coord n) = 1"
  by (induction rule: linked.induct) (auto simp: coord_def)

lemma in_grid_open [simp]: "in_grid (a\<lparr>open_list := l\<rparr>) c = in_grid a c"
  by (simp add: in_grid_iff)

lemma in_grid_closed [simp]: "in_grid (a\<lparr>closed_list := l\<rparr>) c = in_grid a c"
  by (simp add: in_grid_iff)

lemma in_grid_end [simp]: "in_grid (a\<lparr>node_end := e\<rparr>) c = in_grid a c"
  by (simp add: in_grid_iff)

lemma grid_node_open [simp]: "grid_node (a\<lparr>open_list := l\<rparr>) c = grid_node a c"
  by (simp add: grid_node_def)

lemma grid_node_closed [simp]: "grid_node (a\<lparr>closed_list := l\<rparr>) c = grid_node a c"
  by (simp add: grid_node_def)

lemma grid_node_end [simp]: "grid_node (a\<lparr>node_end := e\<rparr>) c = grid_node a c"
  by (simp add: grid_node_def)

lemma cell_kind_open [simp]: "cell_kind (a\<lparr>open_list := l\<rparr>) c = cell_kind a c"
  by (simp add: cell_kind_def)

lemma cell_kind_closed [simp]: "cell_kind (a\<lparr>closed_list := l\<rparr>) c = cell_kind a c"
  by (simp add: cell_kind_def)

lemma cell_kind_end [simp]: "cell_kind (a\<lparr>node_end := e\<rparr>) c = cell_kind a c"
  by (simp add: cell_kind_def)

lemma layout_ok_open [simp]: "layout_ok (a\<lparr>open_list := l\<rparr>) = layout_ok a"
  by (simp add: layout_ok_def)

lemma layout_ok_closed [simp]: "layout_ok (a\<lparr>closed_list := l\<rparr>) = layout_ok a"
  by (simp add: layout_ok_def)

lemma layout_ok_end [simp]: "layout_ok (a\<lparr>node_end := e\<rparr>) = layout_ok a"
  by (simp add: layout_ok_def)

lemma grid_ok_open [simp]: "grid_ok (a\<lparr>open_list := l\<rparr>) = grid_ok a"
  by (simp add: grid_ok_def)

lemma grid_ok_closed [simp]: "grid_ok (a\<lparr>closed_list := l\<rparr>) = grid_ok a"
  by (simp add: grid_ok_def)

lemma linked_open [simp]: "linked (a\<lparr>open_list := l\<rparr>) n = linked a n"
  using linked_cong[of a n "a\<lparr>open_list := l\<rparr>"] linked_cong[of "a\<lparr>open_list := l\<rparr>" n a]
  by auto

lemma linked_closed [simp]: "linked (a\<lparr>closed_list := l\<rparr>) n = linked a n"
  using linked_cong[of a n "a\<lparr>closed_list := l\<rparr>"] linked_cong[of "a\<lparr>closed_list := l\<rparr>" n a]
  by auto

lemma linked_end [simp]: "linked (a\<lparr>node_end := e\<rparr>) n = linked a n"
  using linked_cong[of a n "a\<lparr>node_end := e\<rparr>"] linked_cong[of "a\<lparr>node_end := e\<rparr>" n a]
  by auto

lemma calc_g_ok:
  assumes "linked a current" "grid_ok a"
  shows "\<exists>gv. calc_g ops current d = Inr gv"
  using linked_edge_or_start[OF assms]
  by (cases "edge_to_parent current") (auto simp: calc_g_def has_edge_to_parent_def)

lemma visit_neighbour_ok:
  assumes g: "grid_ok a" and f: "frontier_ok a (open_list a)"
    and cur: "linked a current" "\<not> is_end current"
    and nb: "in_grid a c" "nb = grid_node a c" "chebyshev (coord current) c = 1"
  shows "\<exists>ol. visit_neighbour ops current a (nb, d) = Inr (a\<lparr>open_list := ol\<rparr>) \<and>
           frontier_ok a ol \<and>
           coord ` set ol = coord ` set (open_list a) \<union>
             (if \<not> is_obstacle nb \<and> coord nb \<notin> coord ` set (closed_list a) then {coord nb} else {})"
proof (cases "is_obstacle nb \<or> contains (closed_list a) nb")
  case True
  then have "visit_neighbour ops current a (nb, d) = Inr (a\<lparr>open_list := open_list a\<rparr>)"
    by (simp add: visit_neighbour_def)
  moreover from True have "\<not> (\<not> is_obstacle nb \<and> coord nb \<notin> coord ` set (closed_list a))"
    by (simp add: contains_iff)
  ultimately show ?thesis using f by (intro exI[of _ "open_list a"]) auto
next
  case False
  have lay: "layout_ok a" using g by (simp add: grid_ok_def)
  have cnb: "coord nb = c" using grid_node_coord[OF lay nb(1)] nb(2) by simp
  have knb: "node_type nb = cell_kind a c" using nb(2) by (simp add: cell_kind_def)
  from False have free: "cell_kind a c \<noteq> OBSTACLE" and notclosed: "c \<notin> coord ` set (closed_list a)"
    using cnb knb by (auto simp: is_obstacle_def contains_iff)
  obtain gv where gv: "calc_g ops current d = Inr gv" using calc_g_ok[OF cur(1) g] by blast
  define nwe where "nwe = set_edge_to_parent nb (Some (Edge current gv (calc_h ops a nb) d))"
  have nwe_eq: "nwe = Node (fst c) (snd c) (cell_kind a c) (Some (Edge current gv (calc_h ops a nb) d))"
    using cnb knb by (simp add: nwe_def set_edge_to_parent_def coord_def prod_eq_iff)
  have lnwe: "linked a nwe"
    unfolding nwe_eq using linked_step[OF cur(1) cur(2) nb(1) nb(3) free] .
  have cnwe: "coord nwe = c" by (simp add: nwe_eq coord_def)
  have enwe: "edge_to_parent nwe \<noteq> None" by (simp add: nwe_eq)
  have added: "(if \<not> is_obstacle nb \<and> coord nb \<notin> coord ` set (closed_list a) then {coord nb} else {}) = {c}"
    using False cnb by (simp add: contains_iff)
  show ?thesis
  proof (cases "contains (open_list a) nwe")
    case notin: False
    then have "visit_neighbour ops current a (nb, d) = Inr (a\<lparr>open_list := open_list a @ [nwe]\<rparr>)"
      using False gv by (simp add: visit_neighbour_def nwe_def)
    moreover have "frontier_ok a (open_list a @ [nwe])"
      using f lnwe enwe notin cnwe by (auto simp: frontier_ok_def contains_iff)
    moreover have "coord ` set (open_list a @ [nwe]) = coord ` set (open_list a) \<union> {c}"
      using cnwe by auto
    ultimately show ?thesis unfolding added by blast
  next
    case isin: True
    then obtain i where i: "list_index (open_list a) nwe = Inr i" using list_index_ok by blast
    then have ib: "i < length (open_list a)" and ic: "coord (open_list a ! i) = c"
      using list_index_bound[OF i] cnwe by simp_all
    from ib have "open_list a ! i \<in> set (open_list a)" by simp
    with f obtain other where other: "edge_to_parent (open_list a ! i) = Some other"
      unfolding frontier_ok_def by blast
    have cin: "c \<in> coord ` set (open_list a)" using isin cnwe by (simp add: contains_iff)
    show ?thesis
    proof (cases "gv < edge_g other")
      case better: True
      then have "visit_neighbour ops current a (nb, d) = Inr (a\<lparr>open_list := (open_list a)[i := nwe]\<rparr>)"
        using False gv isin i other by (simp add: visit_neighbour_def nwe_def)
      moreover have mc: "map coord ((open_list a)[i := nwe]) = map coord (open_list a)"
        using ib ic cnwe by (simp add: map_update list_update_same_conv)
      have "frontier_ok a ((open_list a)[i := nwe])"
        unfolding frontier_ok_def mc
        using f lnwe enwe set_update_subset_insert[of "open_list a" i nwe]
        by (auto simp: frontier_ok_def)
      moreover have "coord ` set ((open_list a)[i := nwe]) = coord ` set (open_list a) \<union> {c}"
        using mc cin by (metis Un_insert_right insert_absorb set_map sup_bot.right_neutral)
      ultimately show ?thesis unfolding added by blast
    next
      case worse: False
      then have "visit_neighbour ops current a (nb, d) = Inr (a\<lparr>open_list := open_list a\<rparr>)"
        using False gv isin i other by (simp add: visit_neighbour_def nwe_def)
      moreover have "coord ` set (open_list a) = coord ` set (open_list a) \<union> {c}"
        using cin by auto
      ultimately show ?thesis unfolding added using f by metis
    qed
  qed
qed

lemma frontier_ok_open [simp]: "frontier_ok (a\<lparr>open_list := l\<rparr>) ol = frontier_ok a ol"
  by (simp add: frontier_ok_def)

lemma frontier_ok_closed [simp]: "frontier_ok (a\<lparr>closed_list := l\<rparr>) ol = frontier_ok a ol"
  by (simp add: frontier_ok_def)

lemma passable_Nil: "passable a [] = {}"
  by (simp add: passable_def)

lemma passable_Cons:
  "passable a (nd # nds) =
     (if \<not> is_obstacle (fst nd) \<and> coord (fst nd) \<notin> coord ` set (closed_list a)
      then {coord (fst nd)} else {}) \<union> passable a nds"
  unfolding passable_def by auto

lemma passable_open [simp]: "passable (a\<lparr>open_list := l\<rparr>) nds = passable a nds"
  by (simp add: passable_def)

lemma visit_neighbours_ok:
  assumes "grid_ok a" "frontier_ok a (open_list a)" "linked a current" "\<not> is_end current"
    and "\<forall>nd\<in>set nds. \<exists>c. in_grid a c \<and> fst nd = grid_node a c \<and> chebyshev (coord current) c = 1"
  shows "\<exists>ol. visit_neighbours ops current a nds = Inr (a\<lparr>open_list := ol\<rparr>) \<and>
           frontier_ok a ol \<and>
           coord ` set ol = coord ` set (open_list a) \<union> passable a nds"
  using assms
proof (induction nds arbitrary: a)
  case Nil
  have "visit_neighbours ops current a [] = Inr (a\<lparr>open_list := open_list a\<rparr>)" by simp
  then show ?case using Nil.prems(2) passable_Nil by blast
next
  case (Cons nd nds)
  obtain nb d where nd: "nd = (nb, d)" by (cases nd)
  from Cons.prems(5) obtain c where c: "in_grid a c" "nb = grid_node a c" "chebyshev (coord current) c = 1"
    unfolding nd by auto
  from visit_neighbour_ok[OF Cons.prems(1,2,3,4) c, of ops d]
  obtain ol1 where ol1: "visit_neighbour ops current a (nb, d) = Inr (a\<lparr>open_list := ol1\<rparr>)"
      "frontier_ok a ol1"
      "coord ` set ol1 = coord ` set (open_list a) \<union>
         (if \<not> is_obstacle nb \<and> coord nb \<notin> coord ` set (closed_list a) then {coord nb} else {})"
    by blast
  define a1 where "a1 = a\<lparr>open_list := ol1\<rparr>"
  have p1: "grid_ok a1" "frontier_ok a1 (open_list a1)" "linked a1 current"
    using Cons.prems(1,3) ol1(2) by (simp_all add: a1_def)
  have p5: "\<forall>nd\<in>set nds. \<exists>c. in_grid a1 c \<and> fst nd = grid_node a1 c \<and> chebyshev (coord current) c = 1"
    using Cons.prems(5) by (simp add: a1_def)
  from Cons.IH[OF p1 Cons.prems(4) p5]
  obtain ol2 where ol2: "visit_neighbours ops current a1 nds = Inr (a1\<lparr>open_list := ol2\<rparr>)"
      "frontier_ok a1 ol2" "coord ` set ol2 = coord ` set (open_list a1) \<union> passable a1 nds"
    by blast
  have "visit_neighbours ops current a (nd # nds) = Inr (a\<lparr>open_list := ol2\<rparr>)"
    using ol1(1) ol2(1) by (simp add: nd a1_def)
  moreover have "frontier_ok a ol2" using ol2(2) by (simp add: a1_def)
  moreover have "coord ` set ol2 = coord ` set (open_list a) \<union> passable a (nd # nds)"
    unfolding ol2(3) passable_Cons using ol1(3) by (simp add: a1_def nd Un_assoc)
  ultimately show ?case by blast
qed

lemma get_f_or_zero_if_start_ok:
  assumes "linked a n" "grid_ok a"
  shows "\<exists>w. get_f_or_zero_if_start ops n = Inr w"
  using linked_edge_or_start[OF assms]
  by (cases "edge_to_parent n") (auto simp: get_f_or_zero_if_start_def)

lemma remove1_coords:
  assumes "distinct (map coord xs)" "list_remove xs n = Inr r" "n \<in> set xs"
  shows "distinct (map coord r)" "coord n \<notin> coord ` set r"
    "coord ` set xs = insert (coord n) (coord ` set r)"
proof -
  have mr: "map coord r = remove1 (coord n) (map coord xs)" by (rule list_remove_coords[OF assms(2)])
  show "distinct (map coord r)" unfolding mr using assms(1) by simp
  have "set (map coord r) = set (map coord xs) - {coord n}"
    unfolding mr using assms(1) by simp
  then have s: "coord ` set r = coord ` set xs - {coord n}" by simp
  show "coord n \<notin> coord ` set r" unfolding s by simp
  show "coord ` set xs = insert (coord n) (coord ` set r)" unfolding s using assms(3) by auto
qed

lemma passable_not_closed: "passable a nds \<inter> coord ` set (closed_list a) = {}"
  unfolding passable_def by blast

lemma do_search_body:
  assumes inv: "search_inv a" and ne: "open_list a \<noteq> []"
  shows "\<exists>current. current \<in> set (open_list a) \<and>
     (if is_end current
      then \<exists>rest. \<forall>d. do_search ops (Suc d) a =
             Some (Inr (True, a\<lparr>open_list := rest, closed_list := closed_list a @ [current],
                                node_end := current\<rparr>))
      else \<exists>ol. search_inv (a\<lparr>open_list := ol, closed_list := closed_list a @ [current]\<rparr>) \<and>
             (\<forall>d. do_search ops (Suc d) a =
                do_search ops d (a\<lparr>open_list := ol, closed_list := closed_list a @ [current]\<rparr>)))"
proof -
  have g: "grid_ok a" and ol: "\<forall>n\<in>set (open_list a). linked a n"
    and od: "distinct (map coord (open_list a))"
    and cl: "\<forall>n\<in>set (closed_list a). linked a n \<and> \<not> is_end n"
    and cd: "distinct (map coord (closed_list a))"
    and dj: "coord ` set (open_list a) \<inter> coord ` set (closed_list a) = {}"
    and st: "if closed_list a = [] then open_list a = [node_start a]
      else (\<forall>n\<in>set (open_list a). edge_to_parent n \<noteq> None) \<and>
           coord (node_start a) \<in> coord ` set (closed_list a)"
    and nc: "\<forall>n\<in>set (closed_list a). \<forall>c. in_grid a c \<longrightarrow> chebyshev (coord n) c = 1 \<longrightarrow>
        cell_kind a c \<noteq> OBSTACLE \<longrightarrow>
        c \<in> coord ` set (open_list a) \<union> coord ` set (closed_list a)"
    using inv unfolding search_inv_def by blast+
  have "\<And>v. v \<in> set (open_list a) \<Longrightarrow> \<exists>w. get_f_or_zero_if_start ops v = Inr w"
    using get_f_or_zero_if_start_ok ol g by blast
  from emap_ok[of "open_list a" "get_f_or_zero_if_start ops", OF this]
  obtain keys where keys: "emap (get_f_or_zero_if_start ops) (open_list a) = Inr keys" by blast
  have "length keys = length (open_list a)" by (rule emap_length[OF keys])
  from min_by_key_ok[OF ne this]
  obtain current where cur: "min_by_key (zip (open_list a) keys) = Inr current" by blast
  have cin: "current \<in> set (open_list a)" by (rule min_by_key_mem[OF cur])
  then have clink: "linked a current" using ol by blast
  from cin have "coord current \<in> coord ` set (open_list a)" by blast
  from list_remove_ok[OF this]
  obtain rest where rest: "list_remove (open_list a) current = Inr rest" by blast
  have rd: "distinct (map coord rest)" and rn: "coord current \<notin> coord ` set rest"
    and rs: "coord ` set (open_list a) = insert (coord current) (coord ` set rest)"
    using remove1_coords[OF od rest cin] by blast+
  have rsub: "set rest \<subseteq> set (open_list a)" by (rule list_remove_subset[OF rest])
  define a1 where "a1 = a\<lparr>open_list := rest, closed_list := closed_list a @ [current]\<rparr>"
  have unf: "do_search ops (Suc d) a =
      (if is_end current then Some (Inr (True, a1\<lparr>node_end := current\<rparr>))
       else (case visit_neighbours ops current a1 (get_neighbours a1 current) of
               Inl e \<Rightarrow> Some (Inl e)
             | Inr a2 \<Rightarrow> do_search ops d a2))" for d
    using ne keys cur rest by (simp add: a1_def Let_def)
  show ?thesis
  proof (cases "is_end current")
    case True
    have "\<forall>d. do_search ops (Suc d) a =
             Some (Inr (True, a\<lparr>open_list := rest, closed_list := closed_list a @ [current],
                                node_end := current\<rparr>))"
      using unf True by (simp add: a1_def)
    then show ?thesis using cin True by auto
  next
    case False
    have ccn: "coord current \<notin> coord ` set (closed_list a)" using cin dj by blast
    have redge: "\<forall>n\<in>set rest. edge_to_parent n \<noteq> None"
    proof (cases "closed_list a = []")
      case True
      with st have "open_list a = [node_start a]" by simp
      with rest have "rest = []" by (auto simp: node_eq_def split: if_splits)
      then show ?thesis by simp
    next
      case False
      with st rsub show ?thesis by auto
    qed
    have g1: "grid_ok a1" using g by (simp add: a1_def)
    have f1: "frontier_ok a1 (open_list a1)"
      using ol rsub redge rd by (auto simp: a1_def frontier_ok_def)
    have l1: "linked a1 current" using clink by (simp add: a1_def)
    have n1: "\<forall>nd\<in>set (get_neighbours a1 current).
        \<exists>c. in_grid a1 c \<and> fst nd = grid_node a1 c \<and> chebyshev (coord current) c = 1"
      using get_neighbours_sound by blast
    from visit_neighbours_ok[OF g1 f1 l1 False n1, of ops]
    obtain ol2 where v: "visit_neighbours ops current a1 (get_neighbours a1 current) = Inr (a1\<lparr>open_list := ol2\<rparr>)"
      and f2: "frontier_ok a1 ol2"
      and c2: "coord ` set ol2 = coord ` set (open_list a1) \<union> passable a1 (get_neighbours a1 current)"
      by blast
    define a2 where "a2 = a\<lparr>open_list := ol2, closed_list := closed_list a @ [current]\<rparr>"
    have a12: "a1\<lparr>open_list := ol2\<rparr> = a2" by (simp add: a1_def a2_def)
    have step: "\<forall>d. do_search ops (Suc d) a = do_search ops d a2"
      using unf False v a12 by simp
    have pas: "passable a1 (get_neighbours a1 current) \<inter> coord ` set (closed_list a @ [current]) = {}"
      using passable_not_closed[of a1 "get_neighbours a1 current"] by (simp add: a1_def)
    have c2': "coord ` set ol2 = coord ` set rest \<union> passable a1 (get_neighbours a1 current)"
      using c2 by (simp add: a1_def)
    have i1: "\<forall>n\<in>set (open_list a2). linked a2 n"
      using f2 by (simp add: a2_def a1_def frontier_ok_def)
    have i2: "distinct (map coord (open_list a2))"
      using f2 by (simp add: a2_def frontier_ok_def)
    have i3: "\<forall>n\<in>set (closed_list a2). linked a2 n \<and> \<not> is_end n"
      using cl clink False by (auto simp: a2_def)
    have i4: "distinct (map coord (closed_list a2))"
      using cd ccn by (simp add: a2_def)
    have i5: "coord ` set (open_list a2) \<inter> coord ` set (closed_list a2) = {}"
    proof -
      have "coord ` set rest \<inter> coord ` set (closed_list a @ [current]) = {}"
        using dj rs rn by auto
      with pas show ?thesis unfolding a2_def using c2' by auto
    qed
    have i6: "(\<forall>n\<in>set (open_list a2). edge_to_parent n \<noteq> None) \<and>
           coord (node_start a2) \<in> coord ` set (closed_list a2)"
    proof -
      have "coord (node_start a) \<in> coord ` set (closed_list a @ [current])"
      proof (cases "closed_list a = []")
        case True
        with st cin have "current = node_start a" by simp
        then show ?thesis by simp
      next
        case False
        with st show ?thesis by auto
      qed
      then show ?thesis using f2 by (simp add: a2_def frontier_ok_def)
    qed
    have i7: "\<forall>n\<in>set (closed_list a2). \<forall>c. in_grid a2 c \<longrightarrow> chebyshev (coord n) c = 1 \<longrightarrow>
        cell_kind a2 c \<noteq> OBSTACLE \<longrightarrow>
        c \<in> coord ` set (open_list a2) \<union> coord ` set (closed_list a2)"
    proof (intro ballI allI impI)
      fix n c
      assume n: "n \<in> set (closed_list a2)" and c: "in_grid a2 c" "chebyshev (coord n) c = 1"
        "cell_kind a2 c \<noteq> OBSTACLE"
      have cg: "in_grid a c" "cell_kind a c \<noteq> OBSTACLE" using c by (simp_all add: a2_def)
      show "c \<in> coord ` set (open_list a2) \<union> coord ` set (closed_list a2)"
      proof (cases "n = current")
        case True
        have lay: "layout_ok a" using g by (simp add: grid_ok_def)
        have "in_grid a1 c" using cg by (simp add: a1_def)
        from get_neighbours_complete[OF this, of current] c(2) True
        obtain d where d: "(grid_node a1 c, d) \<in> set (get_neighbours a1 current)" by blast
        have gc: "coord (grid_node a1 c) = c" using grid_node_coord[OF lay cg(1)] by (simp add: a1_def)
        have "\<not> is_obstacle (grid_node a1 c)"
          using cg(2) by (simp add: is_obstacle_def cell_kind_def a1_def)
        then have "c \<in> coord ` set (closed_list a1) \<or> c \<in> passable a1 (get_neighbours a1 current)"
          unfolding passable_def using d gc by force
        then show ?thesis using c2' by (auto simp: a2_def a1_def)
      next
        case False
        with n have "n \<in> set (closed_list a)" by (simp add: a2_def)
        with nc cg c(2) have "c \<in> coord ` set (open_list a) \<union> coord ` set (closed_list a)" by blast
        then show ?thesis unfolding rs using c2' by (auto simp: a2_def)
      qed
    qed
    have "search_inv a2"
      unfolding search_inv_def using g i1 i2 i3 i4 i5 i6 i7
      by (simp add: a2_def)
    then show ?thesis using cin False step unfolding a2_def by auto
  qed
qed

lemma is_end_iff: "is_end n \<longleftrightarrow> node_type n = END"
  by (simp add: is_end_def)

lemma is_start_iff: "is_start n \<longleftrightarrow> node_type n = START"
  by (simp add: is_start_def)

lemma is_obstacle_iff: "is_obstacle n \<longleftrightarrow> node_type n = OBSTACLE"
  by (simp add: is_obstacle_def)

lemma search_post_cong:
  "search_post (a\<lparr>open_list := ol, closed_list := cl\<rparr>) b a' = search_post a b a'"
  by (simp add: search_post_def)

lemma search_inv_closed:
  assumes "search_inv a"
  shows "\<forall>n\<in>set (closed_list a). linked a n" "distinct (map coord (closed_list a))"
    "\<forall>n\<in>set (open_list a). linked a n"
    "coord ` set (open_list a) \<inter> coord ` set (closed_list a) = {}"
    "\<forall>n\<in>set (closed_list a). \<not> is_end n" "grid_ok a"
  using assms unfolding search_inv_def by blast+

lemma do_search_result:
  "search_inv a \<Longrightarrow> do_search ops depth a = Some r \<Longrightarrow> \<exists>b a'. r = Inr (b, a') \<and> search_post a b a'"
proof (induction depth arbitrary: a)
  case 0
  then show ?case by simp
next
  case (Suc d)
  note inv = search_inv_closed[OF Suc.prems(1)]
  show ?case
  proof (cases "open_list a = []")
    case True
    with Suc.prems(2) have "r = Inr (False, a)" by simp
    moreover have "search_post a False a"
      using inv(1,2) True Suc.prems(1) by (simp add: search_post_def)
    ultimately show ?thesis by blast
  next
    case False
    from do_search_body[OF Suc.prems(1) False, of ops]
    obtain current where cin: "current \<in> set (open_list a)"
      and body: "if is_end current
        then \<exists>rest. \<forall>d. do_search ops (Suc d) a =
               Some (Inr (True, a\<lparr>open_list := rest, closed_list := closed_list a @ [current],
                                  node_end := current\<rparr>))
        else \<exists>ol. search_inv (a\<lparr>open_list := ol, closed_list := closed_list a @ [current]\<rparr>) \<and>
               (\<forall>d. do_search ops (Suc d) a =
                  do_search ops d (a\<lparr>open_list := ol, closed_list := closed_list a @ [current]\<rparr>))"
      by blast
    have clink: "linked a current" using cin inv(3) by blast
    have ccn: "coord current \<notin> coord ` set (closed_list a)" using cin inv(4) by blast
    show ?thesis
    proof (cases "is_end current")
      case True
      with body obtain rest where
        "do_search ops (Suc d) a =
           Some (Inr (True, a\<lparr>open_list := rest, closed_list := closed_list a @ [current],
                              node_end := current\<rparr>))" by auto
      with Suc.prems(2) have
        r: "r = Inr (True, a\<lparr>open_list := rest, closed_list := closed_list a @ [current],
                              node_end := current\<rparr>)" by simp
      have "search_post a True (a\<lparr>open_list := rest, closed_list := closed_list a @ [current],
                              node_end := current\<rparr>)"
        using inv(1,2) clink ccn True by (auto simp: search_post_def)
      with r show ?thesis by blast
    next
      case False
      with body obtain ol where
        i2: "search_inv (a\<lparr>open_list := ol, closed_list := closed_list a @ [current]\<rparr>)"
        and eq: "do_search ops (Suc d) a =
                  do_search ops d (a\<lparr>open_list := ol, closed_list := closed_list a @ [current]\<rparr>)"
        by auto
      from Suc.IH[OF i2] eq Suc.prems(2) show ?thesis unfolding search_post_cong by simp
    qed
  qed
qed

lemma in_grid_set: "{c. in_grid a c} = {0..<get_len_x a} \<times> {0..<get_len_y a}"
  by (auto simp: in_grid_def is_in_bounds_def)

lemma finite_in_grid: "finite {c. in_grid a c}"
  unfolding in_grid_set by simp

lemma card_in_grid: "int (card {c. in_grid a c}) = get_len_x a * get_len_y a"
  unfolding in_grid_set by (simp add: card_cartesian_product get_len_x_def get_len_y_def)

lemma finite_remaining: "finite (remaining a)"
  by (rule finite_subset[OF _ finite_in_grid[of a]]) (auto simp: remaining_def)

lemma do_search_returns:
  "search_inv a \<Longrightarrow> card (remaining a) < depth \<Longrightarrow> \<exists>r. do_search ops depth a = Some r"
proof (induction depth arbitrary: a)
  case 0
  then show ?case by simp
next
  case (Suc d)
  note inv = search_inv_closed[OF Suc.prems(1)]
  show ?case
  proof (cases "open_list a = []")
    case True
    then show ?thesis by simp
  next
    case False
    from do_search_body[OF Suc.prems(1) False, of ops]
    obtain current where cin: "current \<in> set (open_list a)"
      and body: "if is_end current
        then \<exists>rest. \<forall>d. do_search ops (Suc d) a =
               Some (Inr (True, a\<lparr>open_list := rest, closed_list := closed_list a @ [current],
                                  node_end := current\<rparr>))
        else \<exists>ol. search_inv (a\<lparr>open_list := ol, closed_list := closed_list a @ [current]\<rparr>) \<and>
               (\<forall>d. do_search ops (Suc d) a =
                  do_search ops d (a\<lparr>open_list := ol, closed_list := closed_list a @ [current]\<rparr>))"
      by blast
    have clink: "linked a current" using cin inv(3) by blast
    have ccn: "coord current \<notin> coord ` set (closed_list a)" using cin inv(4) by blast
    show ?thesis
    proof (cases "is_end current")
      case True
      with body show ?thesis by auto
    next
      case False
      with body obtain ol where
        i2: "search_inv (a\<lparr>open_list := ol, closed_list := closed_list a @ [current]\<rparr>)"
        and eq: "do_search ops (Suc d) a =
                  do_search ops d (a\<lparr>open_list := ol, closed_list := closed_list a @ [current]\<rparr>)"
        by auto
      define a2 where "a2 = a\<lparr>open_list := ol, closed_list := closed_list a @ [current]\<rparr>"
      have "cell_kind a (coord current) \<noteq> END"
        using linked_kind[OF clink inv(6)] False by (simp add: is_end_iff)
      then have "coord current \<in> remaining a"
        using linked_in_grid[OF clink inv(6)] ccn by (simp add: remaining_def)
      moreover have "remaining a2 = remaining a - {coord current}"
        by (auto simp: remaining_def a2_def)
      ultimately have "card (remaining a2) < card (remaining a)"
        using card_Diff1_less[OF finite_remaining[of a], of "coord current"] by simp
      with Suc.prems(2) have "card (remaining a2) < d" by simp
      from Suc.IH[OF i2[folded a2_def] this] eq show ?thesis by (simp add: a2_def)
    qed
  qed
qed

lemma scan_start_some:
  "fst (foldl scan_node se ns) = Some s \<Longrightarrow> (s \<in> set ns \<and> is_start s) \<or> fst se = Some s"
proof (induction ns arbitrary: se)
  case Nil
  then show ?case by simp
next
  case (Cons n ns)
  from Cons.IH[of "scan_node se n"] Cons.prems
  have "(s \<in> set ns \<and> is_start s) \<or> fst (scan_node se n) = Some s" by simp
  then show ?case by (auto simp: scan_node_def split: if_splits)
qed

lemma scan_end_some:
  "snd (foldl scan_node se ns) = Some s \<Longrightarrow> (s \<in> set ns \<and> is_end s) \<or> snd se = Some s"
proof (induction ns arbitrary: se)
  case Nil
  then show ?case by simp
next
  case (Cons n ns)
  from Cons.IH[of "scan_node se n"] Cons.prems
  have "(s \<in> set ns \<and> is_end s) \<or> snd (scan_node se n) = Some s" by simp
  then show ?case by (auto simp: scan_node_def split: if_splits)
qed

lemma scan_start_none:
  "fst (foldl scan_node se ns) = None \<longleftrightarrow> fst se = None \<and> (\<forall>n\<in>set ns. \<not> is_start n)"
  by (induction ns arbitrary: se) (auto simp: scan_node_def)

lemma scan_end_none:
  "snd (foldl scan_node se ns) = None \<longleftrightarrow> snd se = None \<and> (\<forall>n\<in>set ns. \<not> is_end n)"
  by (induction ns arbitrary: se) (auto simp: scan_node_def)

lemma concat_nth:
  "s \<in> set (concat lay) \<Longrightarrow> \<exists>i<length lay. \<exists>j<length (lay ! i). s = lay ! i ! j"
  by (auto simp: in_set_conv_nth) blast

lemma init_node_fields:
  "init_node arr2d i j = Inr n \<Longrightarrow>
     node_x n = int i \<and> node_y n = int j \<and> edge_to_parent n = None \<and>
     from_value (arr2d ! i ! j) = Inr (node_type n) \<and> j < length (arr2d ! i)"
  by (auto simp: init_node_def split: if_splits sum.splits)

lemma build_layout:
  assumes "emap (\<lambda>i. emap (\<lambda>j. init_node arr2d i j) [0..<yLen]) [0..<xLen] = Inr lay"
  shows "length lay = xLen"
    and "i < xLen \<Longrightarrow> length (lay ! i) = yLen"
    and "i < xLen \<Longrightarrow> j < yLen \<Longrightarrow> init_node arr2d i j = Inr (lay ! i ! j)"
proof -
  show len: "length lay = xLen" using emap_length[OF assms] by simp
  have row: "emap (\<lambda>j. init_node arr2d i j) [0..<yLen] = Inr (lay ! i)" if "i < xLen" for i
    using emap_nth[OF assms, of i] that by simp
  show "i < xLen \<Longrightarrow> length (lay ! i) = yLen" using emap_length[OF row] by simp
  show "i < xLen \<Longrightarrow> j < yLen \<Longrightarrow> init_node arr2d i j = Inr (lay ! i ! j)"
    using emap_nth[OF row, of i j] by simp
qed

lemma AStar_init_cases:
  assumes "AStar_init co cc arr2d = Inr a"
  shows "arr2d \<noteq> [] \<and>
     emap (\<lambda>i. emap (\<lambda>j. init_node arr2d i j) [0..<length (arr2d ! 0)]) [0..<length arr2d] = Inr (layout a) \<and>
     foldl scan_node (None, None) (concat (layout a)) = (Some (node_start a), Some (node_end a)) \<and>
     open_list a = co \<and> closed_list a = cc"
proof (cases arr2d)
  case Nil
  with assms show ?thesis by (simp add: AStar_init_def)
next
  case (Cons row0 rows)
  with assms show ?thesis
    by (auto simp: AStar_init_def Let_def split: sum.splits option.splits prod.splits)
qed

lemma AStar_init_grid_ok:
  assumes "AStar_init co cc arr2d = Inr a"
  shows "grid_ok a" and "edge_to_parent (node_end a) = None"
proof -
  from AStar_init_cases[OF assms]
  have ne: "arr2d \<noteq> []"
    and lay: "emap (\<lambda>i. emap (\<lambda>j. init_node arr2d i j) [0..<length (arr2d ! 0)]) [0..<length arr2d] = Inr (layout a)"
    and sc: "foldl scan_node (None, None) (concat (layout a)) = (Some (node_start a), Some (node_end a))"
    by blast+
  note b = build_layout[OF lay]
  have len0: "length (layout a ! 0) = length (arr2d ! 0)" using b(2)[of 0] ne by simp
  have node: "node_x (layout a ! i ! j) = int i \<and> node_y (layout a ! i ! j) = int j \<and>
        edge_to_parent (layout a ! i ! j) = None"
    if "i < length (layout a)" "j < length (layout a ! 0)" for i j
    using init_node_fields[OF b(3)[of i j]] that b(1) len0 by simp
  have lok: "layout_ok a"
    unfolding layout_ok_def using ne b(1) b(2) len0 node by auto
  have cell: "in_grid a (coord s) \<and> s = grid_node a (coord s) \<and> edge_to_parent s = None"
    if "s \<in> set (concat (layout a))" for s
  proof -
    from concat_nth[OF that] obtain i j where ij: "i < length (layout a)" "j < length (layout a ! i)"
      "s = layout a ! i ! j" by blast
    have j0: "j < length (layout a ! 0)" using ij(1,2) b(1) b(2)[of i] len0 by simp
    from node[OF ij(1) j0] ij(1) j0 ij(3) show ?thesis
      by (simp add: in_grid_iff grid_node_def coord_def)
  qed
  from scan_start_some[of "(None, None)" "concat (layout a)" "node_start a"] sc
  have s: "node_start a \<in> set (concat (layout a))" "is_start (node_start a)" by simp_all
  from scan_end_some[of "(None, None)" "concat (layout a)" "node_end a"] sc
  have e: "node_end a \<in> set (concat (layout a))" "is_end (node_end a)" by simp_all
  have "cell_kind a (coord (node_end a)) = END"
    using cell[OF e(1)] e(2) by (simp add: cell_kind_def is_end_iff)
  then show "grid_ok a"
    unfolding grid_ok_def using lok cell[OF s(1)] cell[OF e(1)] s(2) e(2)
    by (simp add: is_start_iff is_end_iff)
  show "edge_to_parent (node_end a) = None" using cell[OF e(1)] by simp
qed

lemma adjacent_steps_snoc:
  "p \<noteq> [] \<Longrightarrow> adjacent_steps (p @ [c]) = (adjacent_steps p \<and> chebyshev (last p) c = 1)"
  by (induction p rule: adjacent_steps.induct) auto

lemma adjacent_steps_nth:
  "adjacent_steps p \<longleftrightarrow> (\<forall>i. Suc i < length p \<longrightarrow> chebyshev (p ! i) (p ! Suc i) = 1)"
proof (induction p rule: adjacent_steps.induct)
  case 1
  show ?case by simp
next
  case (2 c)
  show ?case by simp
next
  case (3 c d cs)
  have "(\<forall>i. Suc i < length (c # d # cs) \<longrightarrow> chebyshev ((c # d # cs) ! i) ((c # d # cs) ! Suc i) = 1)
      \<longleftrightarrow> chebyshev c d = 1 \<and> (\<forall>i. Suc i < length (d # cs) \<longrightarrow> chebyshev ((d # cs) ! i) ((d # cs) ! Suc i) = 1)"
    (is "?L \<longleftrightarrow> ?R")
  proof
    assume l: ?L
    have "chebyshev c d = 1" using l[rule_format, of 0] by simp
    moreover have "chebyshev ((d # cs) ! i) ((d # cs) ! Suc i) = 1" if "Suc i < length (d # cs)" for i
      using l[rule_format, of "Suc i"] that by simp
    ultimately show ?R by blast
  next
    assume r: ?R
    show ?L
    proof (intro allI impI)
      fix i assume "Suc i < length (c # d # cs)"
      then show "chebyshev ((c # d # cs) ! i) ((c # d # cs) ! Suc i) = 1"
        using r by (cases i) auto
    qed
  qed
  with 3 show ?case by simp
qed

lemma linked_free_path:
  "linked a n \<Longrightarrow> grid_ok a \<Longrightarrow>
     \<exists>p. free_path a p \<and> hd p = coord (node_start a) \<and> last p = coord n"
proof (induction rule: linked.induct)
  case linked_start
  then have "in_grid a (coord (node_start a))" "cell_kind a (coord (node_start a)) = START"
    unfolding grid_ok_def cell_kind_def by simp_all
  then have "free_path a [coord (node_start a)]"
    unfolding free_path_def by simp
  then show ?case by (intro exI[of _ "[coord (node_start a)]"]) simp
next
  case (linked_step p c gv hv d)
  then obtain q where q: "free_path a q" "hd q = coord (node_start a)" "last q = coord p" by blast
  have "free_path a (q @ [c])"
    using q(1,3) linked_step.hyps(3,4,5) by (auto simp: free_path_def adjacent_steps_snoc)
  moreover have "hd (q @ [c]) = coord (node_start a)" using q(1,2) by (simp add: free_path_def)
  ultimately show ?case by (intro exI[of _ "q @ [c]"]) (simp add: coord_def)
qed

lemma closed_path:
  assumes inv: "search_inv a" and emp: "open_list a = []"
  shows "adjacent_steps (c # cs) \<Longrightarrow> \<forall>d\<in>set (c # cs). in_grid a d \<and> cell_kind a d \<noteq> OBSTACLE \<Longrightarrow>
     c \<in> coord ` set (closed_list a) \<Longrightarrow> set (c # cs) \<subseteq> coord ` set (closed_list a)"
proof (induction cs arbitrary: c)
  case Nil
  then show ?case by simp
next
  case (Cons d cs)
  have nc: "\<forall>n\<in>set (closed_list a). \<forall>c. in_grid a c \<longrightarrow> chebyshev (coord n) c = 1 \<longrightarrow>
        cell_kind a c \<noteq> OBSTACLE \<longrightarrow>
        c \<in> coord ` set (open_list a) \<union> coord ` set (closed_list a)"
    using inv unfolding search_inv_def by blast
  from Cons.prems(3) obtain n where n: "n \<in> set (closed_list a)" "coord n = c" by auto
  have "chebyshev (coord n) d = 1" using Cons.prems(1) n(2) by simp
  moreover have "in_grid a d" "cell_kind a d \<noteq> OBSTACLE" using Cons.prems(2) by simp_all
  ultimately have "d \<in> coord ` set (open_list a) \<union> coord ` set (closed_list a)"
    using nc n(1) by blast
  then have "d \<in> coord ` set (closed_list a)" using emp by simp
  from Cons.IH[OF _ _ this] Cons.prems(1,2) have "set (d # cs) \<subseteq> coord ` set (closed_list a)" by simp
  with Cons.prems(3) show ?case by simp
qed

lemma exhausted_unreachable:
  assumes inv: "search_inv a" and emp: "open_list a = []"
  shows "\<not> end_reachable a"
proof
  assume "end_reachable a"
  then obtain p where p: "free_path a p" "hd p = coord (node_start a)" "cell_kind a (last p) = END"
    unfolding end_reachable_def by blast
  from p(1) obtain c cs where pc: "p = c # cs" unfolding free_path_def by (cases p) auto
  have st: "coord (node_start a) \<in> coord ` set (closed_list a)"
    using inv emp unfolding search_inv_def by (cases "closed_list a = []") auto
  have "set (c # cs) \<subseteq> coord ` set (closed_list a)"
    using closed_path[OF inv emp, of c cs] p(1,2) st unfolding pc free_path_def by simp
  then have "last p \<in> coord ` set (closed_list a)" unfolding pc using last_in_set[of "c # cs"] by blast
  then obtain n where n: "n \<in> set (closed_list a)" "coord n = last p" by auto
  note i = search_inv_closed[OF inv]
  have "node_type n = END" using linked_kind[of a n] i(1,6) n p(3) by simp
  then show False using i(5) n(1) by (simp add: is_end_iff)
qed

lemma search_reset_fields [simp]:
  "layout (search_reset a) = layout a" "node_start (search_reset a) = node_start a"
  "node_end (search_reset a) = node_end a" "open_list (search_reset a) = [node_start a]"
  "closed_list (search_reset a) = []"
  by (simp_all add: search_reset_def)

lemma search_reset_eq: "search_reset a = a\<lparr>open_list := [node_start a], closed_list := []\<rparr>"
  by (simp add: search_reset_def)

lemma search_reset_inv: "grid_ok a \<Longrightarrow> search_inv (search_reset a)"
  unfolding search_inv_def search_reset_eq using linked_start[of a] by simp

lemma remaining_reset:
  assumes "grid_ok a"
  shows "int (card (remaining (search_reset a))) < get_len_x a * get_len_y a"
proof -
  have e: "in_grid a (coord (node_end a))" "cell_kind a (coord (node_end a)) = END"
    using assms by (simp_all add: grid_ok_def)
  have "remaining (search_reset a) \<subseteq> {c. in_grid a c} - {coord (node_end a)}"
    using e(2) by (auto simp: remaining_def search_reset_eq)
  then have "card (remaining (search_reset a)) \<le> card ({c. in_grid a c} - {coord (node_end a)})"
    using finite_in_grid[of a] by (simp add: card_mono)
  also have "\<dots> < card {c. in_grid a c}"
    using card_Diff1_less[OF finite_in_grid[of a], of "coord (node_end a)"] e(1) by simp
  finally show ?thesis using card_in_grid[of a] by linarith
qed

lemma in_grid_cong: "layout b = layout a \<Longrightarrow> in_grid b c = in_grid a c"
  by (simp add: in_grid_iff)

lemma cell_kind_cong: "layout b = layout a \<Longrightarrow> cell_kind b c = cell_kind a c"
  by (simp add: cell_kind_def grid_node_def)

lemma free_path_cong:
  assumes "layout b = layout a"
  shows "free_path b p = free_path a p"
proof -
  have "in_grid b = in_grid a" using in_grid_cong[OF assms] by (simp add: fun_eq_iff)
  moreover have "cell_kind b = cell_kind a" using cell_kind_cong[OF assms] by (simp add: fun_eq_iff)
  ultimately show ?thesis by (simp add: free_path_def)
qed

lemma end_reachable_cong:
  assumes "layout b = layout a" "node_start b = node_start a"
  shows "end_reachable b = end_reachable a"
proof -
  have "free_path b = free_path a" using free_path_cong[OF assms(1)] by (simp add: fun_eq_iff)
  moreover have "cell_kind b = cell_kind a" using cell_kind_cong[OF assms(1)] by (simp add: fun_eq_iff)
  ultimately show ?thesis using assms(2) by (simp add: end_reachable_def)
qed

lemma grid_ok_cong:
  assumes "grid_ok a" "layout b = layout a" "node_start b = node_start a"
    "in_grid a (coord (node_end b))" "node_type (node_end b) = END"
    "cell_kind a (coord (node_end b)) = END"
  shows "grid_ok b"
proof -
  have "layout_ok a" using assms(1) unfolding grid_ok_def by blast
  then have l: "layout_ok b" unfolding layout_ok_def assms(2) .
  have gn: "grid_node b = grid_node a" using assms(2) by (simp add: grid_node_def fun_eq_iff)
  have ig: "in_grid b = in_grid a" using in_grid_cong[OF assms(2)] by (simp add: fun_eq_iff)
  have ck: "cell_kind b = cell_kind a" using cell_kind_cong[OF assms(2)] by (simp add: fun_eq_iff)
  have s: "in_grid a (coord (node_start a))" "grid_node a (coord (node_start a)) = node_start a"
    "node_type (node_start a) = START"
    using assms(1) unfolding grid_ok_def by blast+
  show ?thesis
    unfolding grid_ok_def gn ig ck assms(3) using l s assms(4,5,6) by blast
qed

lemma search_result:
  assumes g: "grid_ok a" and s: "search ops depth a = Some r"
  shows "\<exists>b a'. r = Inr (b, a') \<and> layout a' = layout a \<and> node_start a' = node_start a \<and>
     (\<forall>n\<in>set (closed_list a'). linked a n) \<and> distinct (map coord (closed_list a')) \<and>
     (if b then is_end (node_end a') \<and> linked a (node_end a') \<and> end_reachable a
      else node_end a' = node_end a \<and> open_list a' = [] \<and>
           (\<forall>n\<in>set (closed_list a'). \<not> is_end n) \<and> \<not> end_reachable a)"
proof -
  from do_search_result[OF search_reset_inv[OF g] s[unfolded search_def]]
  obtain b a' where r: "r = Inr (b, a')" and post: "search_post (search_reset a) b a'" by blast
  have lin: "linked (search_reset a) n = linked a n" for n by (simp add: search_reset_eq)
  from post have p: "layout a' = layout a" "node_start a' = node_start a"
    "\<forall>n\<in>set (closed_list a'). linked a n" "distinct (map coord (closed_list a'))"
    unfolding search_post_def lin by simp_all
  show ?thesis
  proof (cases b)
    case True
    with post have e: "is_end (node_end a')" "linked a (node_end a')"
      unfolding search_post_def lin by simp_all
    from linked_free_path[OF e(2) g] obtain q where q: "free_path a q" "hd q = coord (node_start a)"
      "last q = coord (node_end a')" by blast
    have "cell_kind a (last q) = END"
      using linked_kind[OF e(2) g] e(1) q(3) by (simp add: is_end_iff)
    with q have "end_reachable a" unfolding end_reachable_def by blast
    with r p e True show ?thesis by (intro exI[of _ True] exI[of _ a']) simp
  next
    case False
    with post have e: "node_end a' = node_end a" "open_list a' = []" "search_inv a'"
      unfolding search_post_def by simp_all
    have "\<not> end_reachable a'" by (rule exhausted_unreachable[OF e(3) e(2)])
    then have "\<not> end_reachable a" using end_reachable_cong[OF p(1) p(2)] by simp
    moreover have "\<forall>n\<in>set (closed_list a'). \<not> is_end n" using search_inv_closed(5)[OF e(3)] .
    ultimately show ?thesis using r p e False by (intro exI[of _ False] exI[of _ a']) simp
  qed
qed

lemma search_total:
  assumes g: "grid_ok a" and d: "get_len_x a * get_len_y a \<le> int depth"
  shows "\<exists>b a'. search ops depth a = Some (Inr (b, a'))"
proof -
  have "card (remaining (search_reset a)) < depth" using remaining_reset[OF g] d by linarith
  from do_search_returns[OF search_reset_inv[OF g] this, of ops]
  obtain r where r: "search ops depth a = Some r" unfolding search_def by blast
  from search_result[OF g r] r show ?thesis by blast
qed

lemma searched_grid_ok:
  assumes g: "grid_ok a" and s: "search ops depth a = Some (Inr (b, a'))"
  shows "grid_ok a'"
proof -
  from search_result[OF g s]
  have p: "layout a' = layout a" "node_start a' = node_start a"
    and c: "if b then is_end (node_end a') \<and> linked a (node_end a')
      else node_end a' = node_end a" by auto
  show ?thesis
  proof (cases b)
    case True
    with c have e: "is_end (node_end a')" "linked a (node_end a')" by simp_all
    have t: "node_type (node_end a') = END" using e(1) by (simp add: is_end_iff)
    have k: "cell_kind a (coord (node_end a')) = END" using linked_kind[OF e(2) g] t by simp
    show ?thesis by (rule grid_ok_cong[OF g p linked_in_grid[OF e(2) g] t k])
  next
    case False
    with c have e: "node_end a' = node_end a" by simp
    have "in_grid a (coord (node_end a))" "node_type (node_end a) = END"
      "cell_kind a (coord (node_end a)) = END"
      using g unfolding grid_ok_def by blast+
    then show ?thesis using grid_ok_cong[OF g p] e by simp
  qed
qed

lemma instance_inv:
  "instance_after ops arr2d hist a \<Longrightarrow>
     grid_ok a \<and> (edge_to_parent (node_end a) \<noteq> None \<longleftrightarrow> True \<in> set hist) \<and>
     (edge_to_parent (node_end a) \<noteq> None \<longrightarrow> linked a (node_end a))"
proof (induction rule: instance_after.induct)
  case (constructed co cc a)
  then show ?case using AStar_init_grid_ok[of co cc arr2d a] by simp
next
  case (shared hist a ol cl)
  then have "linked a (node_end a) \<Longrightarrow>
      linked (a\<lparr>open_list := ol, closed_list := cl\<rparr>) (node_end a)" by simp
  with shared.IH show ?case by simp
next
  case (searched hist a depth b a')
  then have g: "grid_ok a" by simp
  have g': "grid_ok a'" by (rule searched_grid_ok[OF g searched.hyps(2)])
  from search_result[OF g searched.hyps(2)]
  have p: "layout a' = layout a" "node_start a' = node_start a"
    and c: "if b then is_end (node_end a') \<and> linked a (node_end a')
      else node_end a' = node_end a" by auto
  show ?case
  proof (cases b)
    case True
    with c have e: "is_end (node_end a')" "linked a (node_end a')" by simp_all
    have "edge_to_parent (node_end a') \<noteq> None"
      using linked_edge_or_start[OF e(2) g] e(1) by (simp add: is_end_iff)
    moreover have "linked a' (node_end a')" by (rule linked_cong[OF e(2) p])
    ultimately show ?thesis using g' True by simp
  next
    case False
    with c have e: "node_end a' = node_end a" by simp
    have "linked a (node_end a) \<Longrightarrow> linked a' (node_end a)" using linked_cong[OF _ p] by blast
    then show ?thesis using g' False e searched.IH by auto
  qed
qed

lemma get_result_loop_chain: "get_result_loop n acc = acc @ parent_chain n"
  by (induction n acc rule: get_result_loop.induct) (simp_all add: is_start_def)

lemma parent_chain_no_edge: "edge_to_parent n = None \<Longrightarrow> parent_chain n = []"
  by (cases n) simp

lemma get_result_chain:
  "edge_to_parent (node_end a) = Some e \<Longrightarrow> get_result a = Inr (rev (parent_chain (target e)))"
  by (simp add: get_result_def get_result_loop_chain)

lemma get_result_none:
  "edge_to_parent (node_end a) = None \<longleftrightarrow> get_result a = Inl PathNotFoundException"
  by (cases "edge_to_parent (node_end a)") (simp_all add: get_result_def)

lemma grid_ok_start:
  assumes "grid_ok a"
  shows "edge_to_parent (node_start a) = None" "node_type (node_start a) = START"
    "in_grid a (coord (node_start a))" "cell_kind a (coord (node_start a)) = START"
proof -
  have l: "layout_ok a" and i: "in_grid a (coord (node_start a))"
    and e: "grid_node a (coord (node_start a)) = node_start a"
    and t: "node_type (node_start a) = START"
    using assms unfolding grid_ok_def by blast+
  show "edge_to_parent (node_start a) = None" using grid_node_no_edge[OF l i] e by simp
  show "node_type (node_start a) = START" by (rule t)
  show "in_grid a (coord (node_start a))" by (rule i)
  show "cell_kind a (coord (node_start a)) = START" unfolding cell_kind_def e by (rule t)
qed

lemma parent_chain_step:
  "parent_chain (Node (fst c) (snd c) k (Some (Edge p gv hv d))) =
     (if k \<noteq> START then c # parent_chain p else [])"
  by simp

lemma chain_head: "parent_chain n = [] \<or> hd (parent_chain n) = coord n"
  by (induction n rule: parent_chain.induct) (simp_all add: coord_def)


lemma chain_start: "grid_ok a \<Longrightarrow> parent_chain (node_start a) = []"
  using parent_chain_no_edge[OF grid_ok_start(1)] by blast

lemma chain_adjacent: "linked a n \<Longrightarrow> grid_ok a \<Longrightarrow> adjacent_steps (parent_chain n)"
proof (induction rule: linked.induct)
  case linked_start
  then show ?case by (simp add: chain_start)
next
  case (linked_step p c gv hv d)
  have ih: "adjacent_steps (parent_chain p)" using linked_step.IH[OF linked_step.prems] .
  show ?case
  proof (cases "parent_chain p")
    case Nil
    then show ?thesis unfolding parent_chain_step by simp
  next
    case (Cons e es)
    have "e = coord p" using chain_head[of p] Cons by simp
    then have "chebyshev c e = 1" using linked_step.hyps(4) chebyshev_sym[of c "coord p"] by simp
    then show ?thesis unfolding parent_chain_step using ih Cons by simp
  qed
qed



lemma adjacent_steps_rev: "adjacent_steps (rev p) = adjacent_steps p"
proof (induction p rule: adjacent_steps.induct)
  case 1
  show ?case by simp
next
  case (2 c)
  show ?case by simp
next
  case (3 c d cs)
  have "adjacent_steps (rev (c # d # cs)) = adjacent_steps (rev (d # cs) @ [c])" by simp
  also have "\<dots> = (adjacent_steps (rev (d # cs)) \<and> chebyshev (last (rev (d # cs))) c = 1)"
    by (rule adjacent_steps_snoc) simp
  also have "\<dots> = (adjacent_steps (d # cs) \<and> chebyshev d c = 1)" unfolding 3 by simp
  finally show ?case using chebyshev_sym[of c d] by auto
qed

lemma from_value_simps:
  "from_value 0 = Inr BLANK" "from_value 1 = Inr START" "from_value 2 = Inr END"
  "from_value 3 = Inr OBSTACLE"
  by (simp_all add: from_value_def NodeType_of_value_def all_node_types_def node_type_value_def)

lemma from_value_above: "3 < v \<Longrightarrow> from_value v = Inr OBSTACLE"
  by (simp add: from_value_def NodeType_of_value_def all_node_types_def node_type_value_def)

lemmas init_defs = AStar_init_def init_node_def from_value_simps upt_rec scan_node_def
  is_start_def is_end_def

lemmas eval_defs = search_def search_reset_def get_f_or_zero_if_start_def get_f_def
  is_end_def is_start_def is_obstacle_def has_edge_to_parent_def node_eq_def set_edge_to_parent_def
  get_neighbours_def aligned_coordinates_def get_node_or_none_def is_in_bounds_def
  get_len_x_def get_len_y_def visit_neighbour_def calc_g_def calc_h_def exact_ops_def Let_def

lemma line3_init: "AStar_init [] [] [[1, 0, 2]] = Inr line3_instance"
  by (simp add: init_defs line3_instance_def)

lemma line3_search: "search exact_ops 3 line3_instance = Some (Inr (True, line3_found))"
  by (simp add: eval_defs numeral_3_eq_3 line3_instance_def line3_found_def)

lemma line3_result: "get_result line3_found = Inr [(0, 1)]"
  by (simp add: get_result_def line3_found_def is_start_def)

lemma line4_init: "AStar_init [] [] [[1, 0, 0, 2]] = Inr line4_instance"
  by (simp add: init_defs line4_instance_def)

lemma line4_search: "search exact_ops 4 line4_instance = Some (Inr (True, line4_found))"
  by (simp add: eval_defs eval_nat_numeral line4_instance_def line4_found_def)

lemma line4_result: "get_result line4_found = Inr [(0, 1), (0, 2)]"
  by (simp add: get_result_def line4_found_def is_start_def)

lemma pair_init: "AStar_init [] [] [[1, 2]] = Inr pair_instance"
  by (simp add: init_defs pair_instance_def)

lemma pair_search: "search exact_ops 2 pair_instance = Some (Inr (True, pair_found))"
  by (simp add: eval_defs numeral_2_eq_2 pair_instance_def pair_found_def)

lemma pair_search_again: "search exact_ops 2 pair_found = Some (Inr (True, pair_found))"
  by (simp add: eval_defs numeral_2_eq_2 pair_found_def)

lemma pair_result: "get_result pair_found = Inr []"
  by (simp add: get_result_def pair_found_def is_start_def)

lemma walled_init: "AStar_init [] [] [[1, 3, 2]] = Inr walled_instance"
  by (simp add: init_defs walled_instance_def)

lemma walled_search: "search exact_ops 3 walled_instance = Some (Inr (False, walled_exhausted))"
  by (simp add: eval_defs numeral_3_eq_3 walled_instance_def walled_exhausted_def)

lemma walled_result: "get_result walled_exhausted = Inl PathNotFoundException"
  by (simp add: get_result_def walled_exhausted_def)

lemma two_ends_init: "AStar_init [] [] [[2, 1, 3, 2]] = Inr two_ends_instance"
  by (simp add: init_defs two_ends_instance_def)

lemma two_ends_search: "search exact_ops 4 two_ends_instance = Some (Inr (True, two_ends_found))"
  by (simp add: eval_defs eval_nat_numeral two_ends_instance_def two_ends_found_def)



section \<open>The claims\<close>

lemma two_ends_cells:
  assumes "in_grid two_ends_instance d" "cell_kind two_ends_instance d \<noteq> OBSTACLE"
  shows "snd d \<noteq> 2"
proof
  assume s: "snd d = 2"
  from assms(1) have "fst d = 0"
    by (simp add: in_grid_def is_in_bounds_def get_len_x_def get_len_y_def two_ends_instance_def
        split: if_splits)
  with s have "d = (0, 2)" by (simp add: prod_eq_iff)
  then have "cell_kind two_ends_instance d = OBSTACLE"
    by (simp add: cell_kind_def grid_node_def two_ends_instance_def)
  with assms(2) show False by simp
qed

lemma two_ends_left:
  "adjacent_steps (c # cs) \<Longrightarrow>
   \<forall>d\<in>set (c # cs). in_grid two_ends_instance d \<and> cell_kind two_ends_instance d \<noteq> OBSTACLE \<Longrightarrow>
   snd c \<le> 1 \<Longrightarrow> \<forall>d\<in>set (c # cs). snd d \<le> 1"
proof (induction cs arbitrary: c)
  case Nil
  then show ?case by simp
next
  case (Cons d cs)
  have "chebyshev c d = 1" using Cons.prems(1) by simp
  then have "snd d \<le> snd c + 1" by (simp add: chebyshev_def max_def abs_if split: if_splits)
  moreover have "snd d \<noteq> 2" using two_ends_cells[of d] Cons.prems(2) by simp
  ultimately have d: "snd d \<le> 1" using Cons.prems(3) by linarith
  have "\<forall>e\<in>set (d # cs). snd e \<le> 1"
    using Cons.IH[of d] Cons.prems(1,2) d by simp
  then show ?case using Cons.prems(3) by simp
qed

lemma two_ends_unreachable: "\<not> end_cell_reachable two_ends_instance"
proof
  assume "end_cell_reachable two_ends_instance"
  then obtain p where p: "free_path two_ends_instance p"
    "hd p = coord (node_start two_ends_instance)" "last p = coord (node_end two_ends_instance)"
    unfolding end_cell_reachable_def by blast
  from p(1) obtain c cs where pc: "p = c # cs" unfolding free_path_def by (cases p) auto
  have c: "snd c \<le> 1" using p(2) pc by (simp add: coord_def two_ends_instance_def)
  have "\<forall>d\<in>set (c # cs). snd d \<le> 1"
    using two_ends_left[of c cs] p(1) c unfolding pc free_path_def by blast
  then have "snd (last p) \<le> 1" unfolding pc using last_in_set[of "c # cs"] by blast
  then show False using p(3) by (simp add: coord_def two_ends_instance_def)
qed

text \<open>
  C1 as stated fails on a grid with two End cells: on \<open>[[2, 1, 3, 2]]\<close> the end cell is
  \<open>(0, 3)\<close>, behind the obstacle, and search returns True because it reaches the other
  cell of kind End, \<open>(0, 0)\<close>.
\<close>

theorem search_true_without_path_to_end_cell:
  "AStar_init [] [] [[2, 1, 3, 2]] = Inr two_ends_instance \<and>
   search exact_ops 4 two_ends_instance = Some (Inr (True, two_ends_found)) \<and>
   coord (node_end two_ends_instance) = (0, 3) \<and>
   \<not> end_cell_reachable two_ends_instance"
  using two_ends_init two_ends_search two_ends_unreachable
  by (simp add: coord_def two_ends_instance_def)

text \<open>
  C1, amended. With enough nested calls allowed (the number of cells), search returns
  True if and only if a sequence of 8-adjacent cells, none an obstacle, leads from the
  start cell to a cell of kind End; otherwise it returns False, with the frontier empty and
  no cell of kind End visited.
\<close>

theorem search_true_iff_end_reachable:
  assumes "instance_after ops arr2d hist a"
    and "get_len_x a * get_len_y a \<le> int depth"
  shows "((\<exists>a'. search ops depth a = Some (Inr (True, a'))) \<longleftrightarrow> end_reachable a) \<and>
         ((\<exists>a'. search ops depth a = Some (Inr (False, a')) \<and> open_list a' = [] \<and>
               (\<forall>n\<in>set (closed_list a'). \<not> is_end n)) \<longleftrightarrow> \<not> end_reachable a)"
proof -
  have g: "grid_ok a" using instance_inv[OF assms(1)] by blast
  from search_total[OF g assms(2), of ops] obtain b a' where
    s: "search ops depth a = Some (Inr (b, a'))" by blast
  from search_result[OF g s]
  have r: "if b then end_reachable a
      else open_list a' = [] \<and> (\<forall>n\<in>set (closed_list a'). \<not> is_end n) \<and> \<not> end_reachable a"
    by (cases b) auto
  show ?thesis
  proof (cases b)
    case True
    with r s show ?thesis by auto
  next
    case False
    with r s show ?thesis by auto
  qed
qed

theorem search_true_iff_end_reachable_witness:
  "instance_after exact_ops [[1, 3, 2]] [] walled_instance \<and>
   get_len_x walled_instance * get_len_y walled_instance \<le> int 3 \<and>
   search exact_ops 3 walled_instance = Some (Inr (False, walled_exhausted)) \<and>
   \<not> end_reachable walled_instance \<and>
   instance_after exact_ops [[1, 0, 2]] [] line3_instance \<and>
   get_len_x line3_instance * get_len_y line3_instance \<le> int 3 \<and>
   search exact_ops 3 line3_instance = Some (Inr (True, line3_found)) \<and>
   end_reachable line3_instance"
proof -
  have w: "instance_after exact_ops [[1, 3, 2]] [] walled_instance"
    by (rule constructed[OF walled_init])
  have wd: "get_len_x walled_instance * get_len_y walled_instance \<le> int 3"
    by (simp add: get_len_x_def get_len_y_def walled_instance_def)
  have l: "instance_after exact_ops [[1, 0, 2]] [] line3_instance"
    by (rule constructed[OF line3_init])
  have ld: "get_len_x line3_instance * get_len_y line3_instance \<le> int 3"
    by (simp add: get_len_x_def get_len_y_def line3_instance_def)
  have "\<not> end_reachable walled_instance"
    using search_true_iff_end_reachable[OF w wd] walled_search by auto
  moreover have "end_reachable line3_instance"
    using search_true_iff_end_reachable[OF l ld] line3_search by auto
  ultimately show ?thesis using w wd l ld walled_search line3_search by simp
qed

text \<open>
  C2. After a call of search that returned True, any two consecutive coordinates of the
  sequence that get_result returns are at Chebyshev distance 1.
\<close>

theorem get_result_consecutive_adjacent:
  assumes "instance_after ops arr2d hist a"
    and "search ops depth a = Some (Inr (True, a'))"
    and "get_result a' = Inr p"
    and "Suc i < length p"
  shows "chebyshev (p ! i) (p ! Suc i) = 1"
proof -
  have g: "grid_ok a" using instance_inv[OF assms(1)] by blast
  from search_result[OF g assms(2)]
  have e: "is_end (node_end a')" "linked a (node_end a')" by auto
  have "edge_to_parent (node_end a') \<noteq> None"
    using linked_edge_or_start[OF e(2) g] e(1) by (simp add: is_end_iff)
  then obtain ed where ed: "edge_to_parent (node_end a') = Some ed" by blast
  have t: "linked a (target ed)"
    using linked_target[OF e(2) ed grid_ok_start(1)[OF g]] by blast
  have "p = rev (parent_chain (target ed))" using get_result_chain[OF ed] assms(3) by simp
  then have "adjacent_steps p" using chain_adjacent[OF t g] by (simp add: adjacent_steps_rev)
  then show ?thesis using assms(4) unfolding adjacent_steps_nth by blast
qed

theorem get_result_consecutive_adjacent_witness:
  "instance_after exact_ops [[1, 0, 0, 2]] [] line4_instance \<and>
   search exact_ops 4 line4_instance = Some (Inr (True, line4_found)) \<and>
   get_result line4_found = Inr [(0, 1), (0, 2)] \<and>
   Suc 0 < length [(0, 1), (0, 2) :: int \<times> int] \<and>
   chebyshev ([(0, 1), (0, 2)] ! 0) ([(0, 1), (0, 2)] ! Suc 0) = 1"
proof -
  have i: "instance_after exact_ops [[1, 0, 0, 2]] [] line4_instance"
    by (rule constructed[OF line4_init])
  have l: "Suc 0 < length [(0, 1), (0, 2) :: int \<times> int]" by simp
  show ?thesis
    using get_result_consecutive_adjacent[OF i line4_search line4_result l] i line4_search
      line4_result
    by simp
qed




text \<open>
  C4. On an instance built by the constructor, after any sequence of calls of search
  (\<open>hist\<close> lists what they returned), get_result raises "path not found" if and only if
  none of these calls returned True; otherwise it returns a path.
\<close>

theorem get_result_path_not_found_iff:
  assumes "instance_after ops arr2d hist a"
  shows "(get_result a = Inl PathNotFoundException \<longleftrightarrow> True \<notin> set hist) \<and>
         (True \<in> set hist \<longrightarrow> (\<exists>p. get_result a = Inr p))"
proof -
  from instance_inv[OF assms]
  have e: "edge_to_parent (node_end a) \<noteq> None \<longleftrightarrow> True \<in> set hist" by blast
  have "get_result a = Inl PathNotFoundException \<longleftrightarrow> True \<notin> set hist"
    using get_result_none[of a] e by blast
  moreover have "\<exists>p. get_result a = Inr p" if "True \<in> set hist"
  proof -
    from that e obtain ed where "edge_to_parent (node_end a) = Some ed" by blast
    from get_result_chain[OF this] show ?thesis by blast
  qed
  ultimately show ?thesis by blast
qed

theorem get_result_path_not_found_iff_witness:
  "instance_after exact_ops [[1, 3, 2]] [False] walled_exhausted \<and>
   get_result walled_exhausted = Inl PathNotFoundException \<and> True \<notin> set [False] \<and>
   instance_after exact_ops [[1, 0, 2]] [True] line3_found \<and>
   True \<in> set [True] \<and> get_result line3_found = Inr [(0, 1)]"
proof -
  have w: "instance_after exact_ops [[1, 3, 2]] ([] @ [False]) walled_exhausted"
    by (rule searched[OF constructed[OF walled_init] walled_search])
  have l: "instance_after exact_ops [[1, 0, 2]] ([] @ [True]) line3_found"
    by (rule searched[OF constructed[OF line3_init] line3_search])
  show ?thesis
    using get_result_path_not_found_iff[OF w] get_result_path_not_found_iff[OF l] w l
      walled_result line3_result
    by simp
qed

lemma from_value_non_negative:
  assumes "0 \<le> v"
  shows "\<exists>t. from_value v = Inr t"
proof -
  from assms consider "v = 0" | "v = 1" | "v = 2" | "v = 3" | "3 < v" by linarith
  then show ?thesis
    using from_value_simps from_value_above by cases auto
qed

lemma concat_nth_iff:
  "s \<in> set (concat lay) \<longleftrightarrow> (\<exists>i<length lay. \<exists>j<length (lay ! i). s = lay ! i ! j)"
proof
  assume "s \<in> set (concat lay)"
  then show "\<exists>i<length lay. \<exists>j<length (lay ! i). s = lay ! i ! j" by (rule concat_nth)
next
  assume "\<exists>i<length lay. \<exists>j<length (lay ! i). s = lay ! i ! j"
  then obtain i j where "i < length lay" "j < length (lay ! i)" "s = lay ! i ! j" by blast
  then have "lay ! i \<in> set lay" "s \<in> set (lay ! i)" by simp_all
  then show "s \<in> set (concat lay)" by auto
qed

lemma rectangular_layout:
  assumes r: "rectangular arr2d" and n: "non_negative arr2d"
  shows "\<exists>lay. emap (\<lambda>i. emap (\<lambda>j. init_node arr2d i j) [0..<length (arr2d ! 0)]) [0..<length arr2d] = Inr lay"
proof (rule emap_ok)
  fix i assume "i \<in> set [0..<length arr2d]"
  then have i: "i < length arr2d" by simp
  then have row: "arr2d ! i \<in> set arr2d" by simp
  then have len: "length (arr2d ! i) = length (arr2d ! 0)" using r unfolding rectangular_def by blast
  show "\<exists>w. emap (\<lambda>j. init_node arr2d i j) [0..<length (arr2d ! 0)] = Inr w"
  proof (rule emap_ok)
    fix j assume "j \<in> set [0..<length (arr2d ! 0)]"
    then have j: "j < length (arr2d ! i)" using len by simp
    then have "arr2d ! i ! j \<in> set (arr2d ! i)" by simp
    then have "0 \<le> arr2d ! i ! j" using n row unfolding non_negative_def by blast
    from from_value_non_negative[OF this] obtain t where "from_value (arr2d ! i ! j) = Inr t" by blast
    then show "\<exists>w. init_node arr2d i j = Inr w" using j by (simp add: init_node_def)
  qed
qed

lemma layout_decodes:
  assumes r: "rectangular arr2d"
    and lay: "emap (\<lambda>i. emap (\<lambda>j. init_node arr2d i j) [0..<length (arr2d ! 0)]) [0..<length arr2d] = Inr lay"
  shows "(\<exists>n\<in>set (concat lay). node_type n = t) \<longleftrightarrow> decodes_to arr2d t"
proof
  note b = build_layout[OF lay]
  assume "\<exists>n\<in>set (concat lay). node_type n = t"
  then obtain n where n: "n \<in> set (concat lay)" "node_type n = t" by blast
  from concat_nth[OF n(1)] obtain i j where ij: "i < length lay" "j < length (lay ! i)" "n = lay ! i ! j"
    by blast
  have i: "i < length arr2d" using ij(1) b(1) by simp
  have j: "j < length (arr2d ! 0)" using ij(2) b(2)[OF i] by simp
  from init_node_fields[OF b(3)[OF i j]]
  have "from_value (arr2d ! i ! j) = Inr t" "j < length (arr2d ! i)" using ij(3) n(2) by simp_all
  moreover have "arr2d ! i \<in> set arr2d" using i by simp
  moreover have "arr2d ! i ! j \<in> set (arr2d ! i)" using \<open>j < length (arr2d ! i)\<close> by simp
  ultimately show "decodes_to arr2d t" unfolding decodes_to_def by blast
next
  note b = build_layout[OF lay]
  assume "decodes_to arr2d t"
  then obtain row v where rv: "row \<in> set arr2d" "v \<in> set row" "from_value v = Inr t"
    unfolding decodes_to_def by blast
  from rv(1) obtain i where i: "i < length arr2d" "row = arr2d ! i" by (auto simp: in_set_conv_nth)
  from rv(2) obtain j where j: "j < length row" "v = row ! j" by (auto simp: in_set_conv_nth)
  have "length row = length (arr2d ! 0)" using r rv(1) unfolding rectangular_def by blast
  then have j0: "j < length (arr2d ! 0)" using j(1) by simp
  from init_node_fields[OF b(3)[OF i(1) j0]] rv(3) i(2) j(2)
  have "node_type (lay ! i ! j) = t" by simp
  moreover have "i < length lay" "j < length (lay ! i)" using i(1) j0 b(1) b(2)[OF i(1)] by simp_all
  then have "lay ! i ! j \<in> set (concat lay)" unfolding concat_nth_iff by blast
  ultimately show "\<exists>n\<in>set (concat lay). node_type n = t" by blast
qed

lemma AStar_init_unfold:
  assumes "arr2d \<noteq> []"
    and "emap (\<lambda>i. emap (\<lambda>j. init_node arr2d i j) [0..<length (arr2d ! 0)]) [0..<length arr2d] = Inr lay"
  shows "AStar_init co cc arr2d =
     (case foldl scan_node (None, None) (concat lay) of
        (None, e) \<Rightarrow> Inl InvalidLayoutInitializationException
      | (Some s, None) \<Rightarrow> Inl InvalidLayoutInitializationException
      | (Some s, Some e) \<Rightarrow>
          Inr \<lparr> layout = lay, node_start = s, node_end = e, open_list = co, closed_list = cc \<rparr>)"
proof (cases arr2d)
  case Nil
  with assms(1) show ?thesis by simp
next
  case (Cons row0 rows)
  with assms(2) show ?thesis by (simp add: AStar_init_def Let_def)
qed

lemma AStar_init_invalid_layout_nonempty:
  assumes "arr2d \<noteq> []" and "rectangular arr2d" and "non_negative arr2d"
  shows "(AStar_init co cc arr2d = Inl InvalidLayoutInitializationException \<longleftrightarrow>
            \<not> decodes_to arr2d START \<or> \<not> decodes_to arr2d END) \<and>
         (decodes_to arr2d START \<and> decodes_to arr2d END \<longrightarrow> (\<exists>a. AStar_init co cc arr2d = Inr a))"
proof -
  from rectangular_layout[OF assms(2,3)] obtain lay where
    lay: "emap (\<lambda>i. emap (\<lambda>j. init_node arr2d i j) [0..<length (arr2d ! 0)]) [0..<length arr2d] = Inr lay"
    by blast
  obtain s e where se: "foldl scan_node (None, None) (concat lay) = (s, e)"
    by (cases "foldl scan_node (None, None) (concat lay)")
  have "s = None \<longleftrightarrow> (\<forall>n\<in>set (concat lay). \<not> is_start n)"
    using scan_start_none[of "(None, None)" "concat lay"] se by simp
  then have s: "s = None \<longleftrightarrow> \<not> decodes_to arr2d START"
    using layout_decodes[OF assms(2) lay, of START] by (auto simp: is_start_iff)
  have "e = None \<longleftrightarrow> (\<forall>n\<in>set (concat lay). \<not> is_end n)"
    using scan_end_none[of "(None, None)" "concat lay"] se by simp
  then have e: "e = None \<longleftrightarrow> \<not> decodes_to arr2d END"
    using layout_decodes[OF assms(2) lay, of END] by (auto simp: is_end_iff)
  show ?thesis
    unfolding AStar_init_unfold[OF assms(1) lay] se using s e
    by (cases s; cases e) simp_all
qed

lemma empty_array_in_domain: "rectangular [] \<and> non_negative [] \<and> \<not> decodes_to [] START"
  by (simp add: rectangular_def non_negative_def decodes_to_def)

text \<open>
  C5. The claim: for every rectangular array of non-negative codes, construction raises
  "invalid layout" if and only if no cell decodes to Start or none decodes to End. On the
  array with no row, which has no Start cell, \<^verbatim>\<open>len(arr2d[0])\<close> raises IndexError before
  the scan and the two checks: the constructor does not raise "invalid layout" there. On
  every array with at least one row it does what the claim says
  (\<open>AStar_init_invalid_layout_nonempty\<close>).
\<close>

theorem AStar_init_empty_array:
  "AStar_init co cc [] = Inl IndexError \<and>
   AStar_init co cc [] \<noteq> Inl InvalidLayoutInitializationException"
  by (simp add: AStar_init_def)

lemma closed_length:
  assumes g: "grid_ok a" and l: "\<forall>n\<in>set cl. linked a n" and d: "distinct (map coord cl)"
  shows "int (length cl) \<le> get_len_x a * get_len_y a"
proof -
  have "set (map coord cl) \<subseteq> {c. in_grid a c}" using l linked_in_grid[OF _ g] by auto
  then have "card (set (map coord cl)) \<le> card {c. in_grid a c}"
    using finite_in_grid[of a] by (simp add: card_mono)
  moreover have "card (set (map coord cl)) = length cl" using distinct_card[OF d] by simp
  ultimately show ?thesis using card_in_grid[of a] by linarith
qed

text \<open>
  C7. A search on an instance built by the constructor returns as soon as the number of
  nested calls of \<^verbatim>\<open>__do_search\<close> allowed is at least the number of cells of the grid:
  each call closes one more cell, no cell is closed twice, and so at most as many cells
  are closed as the grid has.
\<close>

theorem search_terminates:
  assumes "instance_after ops arr2d hist a"
    and "get_len_x a * get_len_y a \<le> int depth"
  shows "\<exists>b a'. search ops depth a = Some (Inr (b, a')) \<and>
           distinct (map coord (closed_list a')) \<and>
           int (length (closed_list a')) \<le> get_len_x a * get_len_y a"
proof -
  have g: "grid_ok a" using instance_inv[OF assms(1)] by blast
  from search_total[OF g assms(2), of ops] obtain b a' where
    s: "search ops depth a = Some (Inr (b, a'))" by blast
  from search_result[OF g s]
  have c: "\<forall>n\<in>set (closed_list a'). linked a n" "distinct (map coord (closed_list a'))" by auto
  from closed_length[OF g c] s c(2) show ?thesis by blast
qed

theorem search_terminates_witness:
  "instance_after exact_ops [[1, 3, 2]] [] walled_instance \<and>
   get_len_x walled_instance * get_len_y walled_instance \<le> int 3 \<and>
   search exact_ops 3 walled_instance = Some (Inr (False, walled_exhausted)) \<and>
   (\<exists>b a'. search exact_ops 3 walled_instance = Some (Inr (b, a')) \<and>
      distinct (map coord (closed_list a')) \<and>
      int (length (closed_list a')) \<le> get_len_x walled_instance * get_len_y walled_instance)"
proof -
  have i: "instance_after exact_ops [[1, 3, 2]] [] walled_instance"
    by (rule constructed[OF walled_init])
  have d: "get_len_x walled_instance * get_len_y walled_instance \<le> int 3"
    by (simp add: get_len_x_def get_len_y_def walled_instance_def)
  show ?thesis using search_terminates[OF i d] i d walled_search by simp
qed

text \<open>
  C8. Decoding a non-negative code: 0 is Blank, 1 is Start, 2 is End, 3 is Obstacle, and
  every code greater than 3 is Obstacle.
\<close>

theorem from_value_decodes:
  "from_value 0 = Inr BLANK \<and> from_value 1 = Inr START \<and> from_value 2 = Inr END
   \<and> from_value 3 = Inr OBSTACLE \<and> (\<forall>v. 3 < v \<longrightarrow> from_value v = Inr OBSTACLE)"
  by (simp add: from_value_def NodeType_of_value_def all_node_types_def node_type_value_def)

theorem from_value_decodes_witness:
  "(3::int) < 7 \<and> from_value 7 = Inr OBSTACLE"
  using from_value_decodes by simp

text \<open>
  C9. The claim: the reset at the start of search leaves the frontier holding only the
  start cell, the visited list empty, and the end cell without an edge to a parent. The
  first statement of search calls \<^verbatim>\<open>set_edge_to_parent(None)\<close> on the end node and drops
  the node it returns, so the end node keeps its edge: on \<open>[[1, 2]]\<close>, after a search
  that returned True, the reset of the next search leaves the end node with the edge to
  the start node. The two lists are reset as the claim says.
\<close>

theorem search_reset_keeps_end_edge:
  "AStar_init [] [] [[1, 2]] = Inr pair_instance \<and>
   search exact_ops 2 pair_instance = Some (Inr (True, pair_found)) \<and>
   open_list (search_reset pair_found) = [node_start pair_found] \<and>
   closed_list (search_reset pair_found) = [] \<and>
   edge_to_parent (node_end (search_reset pair_found)) =
     Some (Edge (Node 0 0 START None) 0 0 False) \<and>
   edge_to_parent (node_end (search_reset pair_found)) \<noteq> None"
  using pair_init pair_search by (simp add: search_reset_def pair_found_def)

text \<open>
  C10. A search on an instance built by the constructor never raises: whatever the number
  of nested calls allowed, its result is not an error, so neither the "No edge found."
  exception of \<^verbatim>\<open>__calc_g\<close> nor the dereference of a missing edge is reached. Every node
  it selected (the closed list holds them in order) is the start node or carries an edge.
\<close>

theorem search_never_raises:
  assumes "instance_after ops arr2d hist a"
    and "search ops depth a = Some r"
  shows "r \<noteq> Inl NoEdgeFound \<and> r \<noteq> Inl AttributeError \<and>
         (\<exists>b a'. r = Inr (b, a') \<and>
            (\<forall>n\<in>set (closed_list a'). n = node_start a \<or> edge_to_parent n \<noteq> None))"
proof -
  have g: "grid_ok a" using instance_inv[OF assms(1)] by blast
  from search_result[OF g assms(2)] obtain b a' where
    r: "r = Inr (b, a')" and c: "\<forall>n\<in>set (closed_list a'). linked a n" by blast
  have "\<forall>n\<in>set (closed_list a'). n = node_start a \<or> edge_to_parent n \<noteq> None"
    using c linked_no_edge[OF _ g] by blast
  with r show ?thesis by blast
qed

theorem search_never_raises_witness:
  "instance_after exact_ops [[1, 0, 2]] [] line3_instance \<and>
   search exact_ops 3 line3_instance = Some (Inr (True, line3_found)) \<and>
   (Inr (True, line3_found) :: error + bool \<times> AStar) \<noteq> Inl NoEdgeFound \<and>
   (\<exists>b a'. (Inr (True, line3_found) :: error + bool \<times> AStar) = Inr (b, a') \<and>
      list_all (\<lambda>n. n = node_start line3_instance \<or> edge_to_parent n \<noteq> None) (closed_list a'))"
proof -
  have i: "instance_after exact_ops [[1, 0, 2]] [] line3_instance"
    by (rule constructed[OF line3_init])
  show ?thesis
    using search_never_raises[OF i line3_search] i line3_search
    by (simp add: list_all_iff)
qed

end
